theory Spec2Isabelle
  imports
    Main
    "HOL-Library.Sublist"
    "HOL-Library.Char_ord"
    "HOL-Library.List_Lexorder"
    "HOL-Library.Word"
begin

section \<open>Strings and regular-expression searches\<close>

text \<open>
  A Python \<open>str\<close> is modelled as a \<open>string\<close>, a list of 8-bit characters read as the code
  points U+0000 to U+00FF. The character classes below are the ones the script's patterns
  use, restricted to that range.
\<close>

definition is_hex :: "char \<Rightarrow> bool" where
  \<comment> \<open>the class \<open>[a-f0-9]\<close>\<close>
  "is_hex c \<longleftrightarrow> c \<in> set ''abcdef0123456789''"

definition is_id_char :: "char \<Rightarrow> bool" where
  \<comment> \<open>the class \<open>[a-zA-Z0-9_-]\<close>\<close>
  "is_id_char c \<longleftrightarrow>
     c \<in> set ''abcdefghijklmnopqrstuvwxyzABCDEFGHIJKLMNOPQRSTUVWXYZ0123456789_-''"

definition is_word_char :: "char \<Rightarrow> bool" where
  \<comment> \<open>\<open>\w\<close> of a \<open>str\<close> pattern: alphanumeric or underscore; beyond ASCII the letters and
      numeric characters of U+0080 to U+00FF\<close>
  "is_word_char c \<longleftrightarrow>
     c \<in> set ''abcdefghijklmnopqrstuvwxyzABCDEFGHIJKLMNOPQRSTUVWXYZ0123456789_'' \<or>
     (let n = (of_char c :: nat) in
        n = 0xAA \<or> n = 0xB2 \<or> n = 0xB3 \<or> n = 0xB5 \<or> n = 0xB9 \<or> n = 0xBA \<or>
        (0xBC \<le> n \<and> n \<le> 0xBE) \<or> (0xC0 \<le> n \<and> n \<le> 0xD6) \<or>
        (0xD8 \<le> n \<and> n \<le> 0xF6) \<or> 0xF8 \<le> n)"

text \<open>
  \<open>re.search\<close> tries the pattern at every position from the left and returns the first
  match. A pattern is given by what it matches at the start of the remaining text; the
  result is the text of its group.
\<close>

fun re_search :: "(string \<Rightarrow> 'a option) \<Rightarrow> string \<Rightarrow> 'a option" where
  "re_search m [] = m []"
| "re_search m (c # cs) = (case m (c # cs) of Some g \<Rightarrow> Some g | None \<Rightarrow> re_search m cs)"

definition match_hex32 :: "string \<Rightarrow> string option" where
  \<comment> \<open>\<open>([a-f0-9]{32})\b\<close>: the character before the boundary is a word character, so the
      boundary holds at the end of the text or before a non-word character\<close>
  "match_hex32 s =
     (let g = take 32 s; rest = drop 32 s in
      if length g = 32 \<and> list_all is_hex g \<and> (rest = [] \<or> \<not> is_word_char (hd rest))
      then Some g else None)"

definition id_run :: "string \<Rightarrow> string option" where
  \<comment> \<open>\<open>([a-zA-Z0-9_-]+)\<close>: the longest run, at least one character\<close>
  "id_run s = (let g = takeWhile is_id_char s in if g = [] then None else Some g)"

definition match_doc_id :: "string \<Rightarrow> string option" where
  \<comment> \<open>\<open>/d/([a-zA-Z0-9_-]+)\<close>\<close>
  "match_doc_id s = (if prefix ''/d/'' s then id_run (drop 3 s) else None)"

definition match_drive_id :: "string \<Rightarrow> string option" where
  \<comment> \<open>\<open>/(?:folders|d)/([a-zA-Z0-9_-]+)\<close>\<close>
  "match_drive_id s =
     (if prefix ''/folders/'' s then id_run (drop 9 s)
      else if prefix ''/d/'' s then id_run (drop 3 s)
      else None)"

fun str_contains :: "string \<Rightarrow> string \<Rightarrow> bool" where
  \<comment> \<open>\<open>w in s\<close>\<close>
  "str_contains w [] = (w = [])"
| "str_contains w (c # cs) = (prefix w (c # cs) \<or> str_contains w cs)"

section \<open>URL normalizer\<close>

type_synonym url_key = "string \<times> string"

definition normalize_url :: "string \<Rightarrow> url_key" where
  "normalize_url url =
     (let m = re_search match_hex32 url in
      if m \<noteq> None \<and> str_contains ''notion'' url then (''notion'', the m)
      else
        let m = re_search match_doc_id url in
        if m \<noteq> None \<and> str_contains ''google.com'' url
        then (if str_contains ''spreadsheets'' url then ''gsheet'' else ''gdoc'', the m)
        else if str_contains ''drive.google.com'' url
        then (case re_search match_drive_id url of
                Some g \<Rightarrow> (''gdrive'', g)
              | None \<Rightarrow> (''other'', url))
        else (''other'', url))"

text \<open>
  The three guarded searches of \<open>normalize_url\<close>, named so that statements about the order
  of the branches can refer to them.
\<close>

definition notion_fires :: "string \<Rightarrow> bool" where
  "notion_fires u \<longleftrightarrow> re_search match_hex32 u \<noteq> None \<and> str_contains ''notion'' u"

definition google_fires :: "string \<Rightarrow> bool" where
  "google_fires u \<longleftrightarrow> re_search match_doc_id u \<noteq> None \<and> str_contains ''google.com'' u"

definition drive_fires :: "string \<Rightarrow> bool" where
  "drive_fires u \<longleftrightarrow> str_contains ''drive.google.com'' u \<and> re_search match_drive_id u \<noteq> None"

text \<open>
  A tail is what two spellings of one document URL differ by: nothing, a query string, a
  fragment, or the punctuation that \<open>get_db_resource_urls\<close> strips (\<open>rstrip(").,;")\<close>).
  A tail is marker free when it holds none of the texts the normalizer looks for.
\<close>

definition url_tail :: "string \<Rightarrow> bool" where
  "url_tail s \<longleftrightarrow> s = [] \<or> hd s \<in> set ''?#).,;''"

definition marker_free :: "string \<Rightarrow> bool" where
  "marker_free s \<longleftrightarrow>
     re_search match_hex32 s = None \<and> re_search match_doc_id s = None \<and>
     \<not> str_contains ''notion'' s \<and> \<not> str_contains ''spreadsheets'' s"

section \<open>Domain of a URL\<close>

text \<open>
  \<open>get_domain\<close> reads \<open>urllib.parse.urlparse(url).hostname\<close>. The model follows
  \<open>urlsplit\<close> of CPython 3.12 up to the host: leading C0 controls and spaces are stripped,
  tab, CR and LF are removed, a scheme is split off, the netloc runs from \<open>//\<close> to the next
  \<open>/\<close>, \<open>?\<close> or \<open>#\<close>. A netloc with one bracket but not the other raises \<open>ValueError\<close>.
  A netloc with both brackets holds an IP literal, which the library validates with the
  \<open>ipaddress\<close> module; that validation is not modelled, and the model reports such a URL
  as \<open>IpLiteral\<close>. Within U+0000 to U+00FF the NFKC check of the netloc cannot fail.
\<close>

datatype url_error = ValueError | IpLiteral

definition py_lower_char :: "char \<Rightarrow> char" where
  \<comment> \<open>\<open>str.lower\<close> on one character of U+0000 to U+00FF\<close>
  "py_lower_char c =
     (let n = (of_char c :: nat) in
      if (65 \<le> n \<and> n \<le> 90) \<or> (0xC0 \<le> n \<and> n \<le> 0xDE \<and> n \<noteq> 0xD7)
      then char_of (n + 32) else c)"

definition py_lower :: "string \<Rightarrow> string" where
  "py_lower s = map py_lower_char s"

definition is_ascii_alpha :: "char \<Rightarrow> bool" where
  "is_ascii_alpha c \<longleftrightarrow> c \<in> set ''abcdefghijklmnopqrstuvwxyzABCDEFGHIJKLMNOPQRSTUVWXYZ''"

definition is_scheme_char :: "char \<Rightarrow> bool" where
  "is_scheme_char c \<longleftrightarrow>
     c \<in> set ''abcdefghijklmnopqrstuvwxyzABCDEFGHIJKLMNOPQRSTUVWXYZ0123456789+-.''"

definition strip_scheme :: "string \<Rightarrow> string" where
  \<comment> \<open>the text after \<open>scheme:\<close>, or the whole text when it has no scheme\<close>
  "strip_scheme url =
     (let pre = takeWhile (\<lambda>c. c \<noteq> CHR '':'') url in
      if length pre < length url \<and> pre \<noteq> [] \<and> is_ascii_alpha (hd pre) \<and>
         list_all is_scheme_char pre
      then drop (length pre + 1) url else url)"

definition url_netloc :: "string \<Rightarrow> string" where
  "url_netloc url =
     (let u1 = dropWhile (\<lambda>c. (of_char c :: nat) \<le> 32) url;
          u2 = filter (\<lambda>c. c \<notin> set [CHR 0x09, CHR 0x0D, CHR 0x0A]) u1;
          u3 = strip_scheme u2
      in if take 2 u3 = ''//'' then takeWhile (\<lambda>c. c \<notin> set ''/?#'') (drop 2 u3) else [])"

definition urlparse_hostname :: "string \<Rightarrow> url_error + string option" where
  "urlparse_hostname url =
     (let netloc = url_netloc url;
          ob = CHR ''['' \<in> set netloc; cb = CHR '']'' \<in> set netloc
      in if ob \<noteq> cb then Inl ValueError
         else if ob then Inl IpLiteral
         else
           let hostinfo = rev (takeWhile (\<lambda>c. c \<noteq> CHR ''@'') (rev netloc));
               hostname = takeWhile (\<lambda>c. c \<noteq> CHR '':'') hostinfo
           in if hostname = [] then Inr None
              else Inr (Some (py_lower (takeWhile (\<lambda>c. c \<noteq> CHR ''%'') hostname) @
                              dropWhile (\<lambda>c. c \<noteq> CHR ''%'') hostname)))"

fun replace_from :: "string \<Rightarrow> string \<Rightarrow> nat \<Rightarrow> string \<Rightarrow> string" where
  \<comment> \<open>\<open>s.replace(old, new)\<close> for a non-empty \<open>old\<close>, scanning from the left; the counter is
      the number of characters of a replaced occurrence still to pass over\<close>
  "replace_from old new n [] = []"
| "replace_from old new (Suc n) (c # cs) = replace_from old new n cs"
| "replace_from old new 0 (c # cs) =
     (if prefix old (c # cs) then new @ replace_from old new (length old - 1) cs
      else c # replace_from old new 0 cs)"

definition str_replace :: "string \<Rightarrow> string \<Rightarrow> string \<Rightarrow> string" where
  "str_replace old new s = replace_from old new 0 s"

definition get_domain :: "string \<Rightarrow> url_error + string" where
  "get_domain url =
     (case urlparse_hostname url of
        Inl e \<Rightarrow> Inl e
      | Inr h \<Rightarrow> Inr (str_replace ''www.'' [] (case h of None \<Rightarrow> [] | Some x \<Rightarrow> x)))"

section \<open>Content normalizer\<close>

definition is_space :: "char \<Rightarrow> bool" where
  \<comment> \<open>the characters \<open>str.strip()\<close> removes, within U+0000 to U+00FF\<close>
  "is_space c \<longleftrightarrow>
     (let n = (of_char c :: nat) in
      (9 \<le> n \<and> n \<le> 13) \<or> (28 \<le> n \<and> n \<le> 32) \<or> n = 0x85 \<or> n = 0xA0)"

definition py_strip :: "string \<Rightarrow> string" where
  "py_strip s = rev (dropWhile is_space (rev (dropWhile is_space s)))"

fun split_on :: "char \<Rightarrow> string \<Rightarrow> string list" where
  \<comment> \<open>\<open>s.split(d)\<close> for a one-character separator\<close>
  "split_on d [] = [[]]"
| "split_on d (c # cs) =
     (if c = d then [] # split_on d cs
      else (case split_on d cs of l # ls \<Rightarrow> (c # l) # ls | [] \<Rightarrow> [[c]]))"

fun join_with :: "char \<Rightarrow> string list \<Rightarrow> string" where
  \<comment> \<open>\<open>d.join(ls)\<close>\<close>
  "join_with d [] = []"
| "join_with d [l] = l"
| "join_with d (l # ls) = l @ d # join_with d ls"

definition lang_labels :: "string list" where
  "lang_labels =
     [''javascript'', ''python'', ''plain text'', ''text'', ''html'', ''css'',
      ''json'', ''typescript'', ''bash'', ''shell'', ''xml'', ''yaml'', ''markdown'',
      ''sql'', ''java'', ''c'', ''c++'', ''ruby'', ''go'', ''rust'', ''swift'', ''kotlin'',
      ''php'', ''r'', ''scala'', ''dart'', ''lua'', ''perl'', ''powershell'']"

text \<open>
  The code-block loop of \<open>preprocess_notion_html\<close>, which runs when \<open>bs4\<close> can be
  imported (otherwise the function returns the HTML as it is). BeautifulSoup's parser is
  outside the model: the loop is given the list \<open>code_blocks\<close> that \<open>find_all\<close> returns,
  each block by the text \<open>get_text()\<close> gives for it, and yields for each block the text of
  the \<open><pre><code>\<close> tag that replaces it.
\<close>

datatype tag = PreCode string

definition block_source :: "string list option \<Rightarrow> nat \<Rightarrow> string \<Rightarrow> string" where
  \<comment> \<open>\<open>code_block_texts[i] if code_block_texts and i < len(code_block_texts) else
      block.get_text()\<close>\<close>
  "block_source code_block_texts i static =
     (case code_block_texts of
        None \<Rightarrow> static
      | Some ts \<Rightarrow> if ts \<noteq> [] \<and> i < length ts then ts ! i else static)"

definition strip_lang_label :: "string \<Rightarrow> string" where
  "strip_lang_label text =
     (let lines = split_on CHR 0x0A text;
          lines = (if lines \<noteq> [] \<and> py_lower (py_strip (hd lines)) \<in> set lang_labels
                   then tl lines else lines)
      in py_strip (join_with CHR 0x0A lines))"

definition rewrite_code_blocks :: "string list option \<Rightarrow> string list \<Rightarrow> tag list" where
  "rewrite_code_blocks code_block_texts code_blocks =
     map (\<lambda>(i, static). PreCode (strip_lang_label (block_source code_block_texts i static)))
       (enumerate 0 code_blocks)"

text \<open>
  The last two statements of \<open>html_to_markdown\<close>:
  \<open>re.sub(r"\n{3,}", "\n\n", result)\<close> and \<open>strip()\<close>. The scan keeps the number of newline
  characters of the run it is in and writes the run out when it ends.
\<close>

definition emit_run :: "nat \<Rightarrow> string" where
  "emit_run n = (if 3 \<le> n then [CHR 0x0A, CHR 0x0A] else replicate n (CHR 0x0A))"

fun collapse_from :: "nat \<Rightarrow> string \<Rightarrow> string" where
  "collapse_from n [] = emit_run n"
| "collapse_from n (c # cs) =
     (if c = CHR 0x0A then collapse_from (Suc n) cs
      else emit_run n @ c # collapse_from 0 cs)"

definition collapse_newlines :: "string \<Rightarrow> string" where
  "collapse_newlines s = collapse_from 0 s"

definition final_cleanup :: "string \<Rightarrow> string" where
  "final_cleanup result = py_strip (collapse_newlines result)"

text \<open>
  Everything \<open>html_to_markdown\<close> does before that (tag stripping, BeautifulSoup,
  markdownify, the line filter) is the parameter \<open>render\<close>; it runs inside the \<open>try\<close> of
  \<open>fetch_notion\<close>, so an exception in it is a value (\<open>Inl\<close> its message).
\<close>

definition html_to_markdown ::
  "(string \<Rightarrow> string list \<Rightarrow> string + string) \<Rightarrow> string \<Rightarrow> string list \<Rightarrow> string + string" where
  "html_to_markdown render html code_block_texts =
     (case render html code_block_texts of
        Inl e \<Rightarrow> Inl e
      | Inr result \<Rightarrow> Inr (final_cleanup result))"

section \<open>Decoding an export body\<close>

text \<open>
  \<open>bytes.decode("utf-8", errors="replace")\<close>: the UTF-8 decoder of CPython, which replaces
  every maximal ill-formed part of the input by U+FFFD. The result is a list of code
  points.
\<close>

type_synonym ustring = "nat list"

definition is_cont :: "nat \<Rightarrow> bool" where
  "is_cont b \<longleftrightarrow> 0x80 \<le> b \<and> b \<le> 0xBF"

definition second_ok :: "nat \<Rightarrow> nat \<Rightarrow> bool" where
  \<comment> \<open>the second byte allowed after a lead byte of a 3- or 4-byte sequence\<close>
  "second_ok b0 b1 \<longleftrightarrow>
     (if b0 = 0xE0 then 0xA0 \<le> b1 \<and> b1 \<le> 0xBF
      else if b0 = 0xED then 0x80 \<le> b1 \<and> b1 \<le> 0x9F
      else if b0 = 0xF0 then 0x90 \<le> b1 \<and> b1 \<le> 0xBF
      else if b0 = 0xF4 then 0x80 \<le> b1 \<and> b1 \<le> 0x8F
      else is_cont b1)"

definition utf8_step :: "nat \<Rightarrow> nat list \<Rightarrow> nat \<times> nat" where
  \<comment> \<open>the code point decoded at a lead byte \<open>b0\<close> followed by \<open>bs\<close>, and the number of bytes
      it takes up; U+FFFD stands for a maximal ill-formed part\<close>
  "utf8_step b0 bs =
     (if b0 < 0x80 then (b0, 1)
      else if 0xC2 \<le> b0 \<and> b0 \<le> 0xDF then
        (case bs of
           [] \<Rightarrow> (0xFFFD, 1)
         | b1 # r1 \<Rightarrow>
             if is_cont b1 then ((b0 - 0xC0) * 64 + (b1 - 0x80), 2) else (0xFFFD, 1))
      else if 0xE0 \<le> b0 \<and> b0 \<le> 0xEF then
        (case bs of
           [] \<Rightarrow> (0xFFFD, 1)
         | b1 # r1 \<Rightarrow>
             if second_ok b0 b1 then
               (case r1 of
                  [] \<Rightarrow> (0xFFFD, 2)
                | b2 # r2 \<Rightarrow>
                    if is_cont b2
                    then ((b0 - 0xE0) * 4096 + (b1 - 0x80) * 64 + (b2 - 0x80), 3)
                    else (0xFFFD, 2))
             else (0xFFFD, 1))
      else if 0xF0 \<le> b0 \<and> b0 \<le> 0xF4 then
        (case bs of
           [] \<Rightarrow> (0xFFFD, 1)
         | b1 # r1 \<Rightarrow>
             if second_ok b0 b1 then
               (case r1 of
                  [] \<Rightarrow> (0xFFFD, 2)
                | b2 # r2 \<Rightarrow>
                    if is_cont b2 then
                      (case r2 of
                         [] \<Rightarrow> (0xFFFD, 3)
                       | b3 # r3 \<Rightarrow>
                           if is_cont b3
                           then ((b0 - 0xF0) * 262144 + (b1 - 0x80) * 4096 +
                                 (b2 - 0x80) * 64 + (b3 - 0x80), 4)
                           else (0xFFFD, 3))
                    else (0xFFFD, 2))
             else (0xFFFD, 1))
      else (0xFFFD, 1))"

fun utf8_dec_from :: "nat \<Rightarrow> nat list \<Rightarrow> ustring" where
  \<comment> \<open>the counter is the number of bytes of the current sequence still to pass over\<close>
  "utf8_dec_from n [] = []"
| "utf8_dec_from (Suc n) (b # bs) = utf8_dec_from n bs"
| "utf8_dec_from 0 (b # bs) =
     (case utf8_step b bs of (cp, k) \<Rightarrow> cp # utf8_dec_from (k - 1) bs)"

definition utf8_dec :: "nat list \<Rightarrow> ustring" where
  "utf8_dec bs = utf8_dec_from 0 bs"

definition decode_utf8_replace :: "8 word list \<Rightarrow> ustring" where
  "decode_utf8_replace body = utf8_dec (map unat body)"

text \<open>
  Well-formed UTF-8, to say what a valid body is: the encoding of the Unicode scalar
  values (RFC 3629).
\<close>

definition is_scalar :: "nat \<Rightarrow> bool" where
  "is_scalar cp \<longleftrightarrow> cp < 0xD800 \<or> (0xE000 \<le> cp \<and> cp < 0x110000)"

definition utf8_enc :: "nat \<Rightarrow> nat list" where
  "utf8_enc cp =
     (if cp < 0x80 then [cp]
      else if cp < 0x800 then [0xC0 + cp div 64, 0x80 + cp mod 64]
      else if cp < 0x10000
      then [0xE0 + cp div 4096, 0x80 + cp div 64 mod 64, 0x80 + cp mod 64]
      else [0xF0 + cp div 262144, 0x80 + cp div 4096 mod 64, 0x80 + cp div 64 mod 64,
            0x80 + cp mod 64])"

definition encode_utf8 :: "ustring \<Rightarrow> 8 word list" where
  "encode_utf8 cps = map of_nat (concat (map utf8_enc cps))"

section \<open>Source fetch strategies\<close>

text \<open>
  The fetch functions return a pair \<open>(content, error)\<close> of which exactly one is \<open>None\<close>;
  the model returns \<open>Inr content\<close> or \<open>Inl error\<close>. The error is a string in the source;
  here it is a value of \<open>fetch_error\<close>, and \<open>error_message\<close> gives the string.
\<close>

datatype fetch_error =
    CdpUnavailable
  | PageDidNotLoad
  | NoMeaningfulContent
  | CdpError string
  | NoDocId
  | AccessDenied
  | HttpError int string
  | FetchError string
  | UnsupportedDomain string

fun str_of_nat :: "nat \<Rightarrow> string" where
  "str_of_nat n =
     (if n < 10 then [char_of (48 + n)]
      else str_of_nat (n div 10) @ [char_of (48 + n mod 10)])"

declare str_of_nat.simps [simp del]

definition str_of_int :: "int \<Rightarrow> string" where
  "str_of_int i = (if i < 0 then CHR ''-'' # str_of_nat (nat (- i)) else str_of_nat (nat i))"

fun error_message :: "fetch_error \<Rightarrow> string" where
  "error_message CdpUnavailable = ''CDP browser not available''"
| "error_message PageDidNotLoad = ''Page did not load''"
| "error_message NoMeaningfulContent = ''No meaningful content found''"
| "error_message (CdpError e) = ''CDP error: '' @ e"
| "error_message NoDocId = ''Could not extract doc ID''"
| "error_message AccessDenied = ''Access denied (requires login)''"
| "error_message (HttpError code reason) = ''HTTP '' @ str_of_int code @ '': '' @ reason"
| "error_message (FetchError e) = ''Error: '' @ e"
| "error_message (UnsupportedDomain d) = ''Unsupported domain: '' @ d"

text \<open>
  What the outside world answers. \<open>http_get\<close> is the final response to a GET (after the
  redirects \<open>urllib\<close> follows) or a failure below HTTP; \<open>urlopen_read\<close> is what
  \<open>urlopen(...).read()\<close> makes of it: \<open>urllib\<close> raises \<open>HTTPError\<close> for every final status
  outside 200 to 299.
\<close>

datatype http_outcome = Response int string "8 word list" | NetworkFailure string

datatype urlopen_result = Body "8 word list" | RaisedHTTPError int string | RaisedOther string

fun urlopen_read :: "http_outcome \<Rightarrow> urlopen_result" where
  "urlopen_read (Response status reason body) =
     (if 200 \<le> status \<and> status < 300 then Body body else RaisedHTTPError status reason)"
| "urlopen_read (NetworkFailure e) = RaisedOther e"

record env =
  CDP_AVAILABLE :: bool
  MARKDOWNIFY_AVAILABLE :: bool
  cdp_probe_ok :: bool
  cdp_connect_ok :: "string \<Rightarrow> bool"
  cdp_fetch_html :: "string \<Rightarrow> string + string \<times> string list"
  render :: "string \<Rightarrow> string list \<Rightarrow> string + string"
  http_get :: "string \<Rightarrow> http_outcome"
  mkdir_ok :: bool
  write_ok :: "string \<Rightarrow> bool"
  db_update_ok :: "string \<Rightarrow> bool"

text \<open>
  \<open>CDP_AVAILABLE\<close> and \<open>MARKDOWNIFY_AVAILABLE\<close> are the module's import flags;
  \<open>cdp_probe_ok\<close>: the probe of \<open>check_cdp_available\<close> answers with status 200;
  \<open>cdp_connect_ok url\<close>: \<open>CDPClient.connect()\<close> succeeds when \<open>get_cdp_client\<close> tries it for
  this URL; \<open>cdp_fetch_html url\<close>: what \<open>client.fetch_html(url)\<close> returns, or the message of
  the exception it raises; \<open>write_ok url\<close>: the two \<open>write_text\<close> calls for this URL succeed;
  \<open>db_update_ok id\<close>: \<open>update_db_asset_content\<close> succeeds.
\<close>

definition check_cdp_available :: "env \<Rightarrow> bool" where
  "check_cdp_available e \<longleftrightarrow> CDP_AVAILABLE e \<and> cdp_probe_ok e"

datatype event =
    Skipped string
  | Previewed string
  | Failed string fetch_error
  | Saved string nat
  | NoUrl string
  | DbUpdateFailed string

record run_state =
  extracted :: nat
  failed :: nat
  skipped_cdp :: nat
  client_created :: bool
  trace :: "event list"

text \<open>
  \<open>client_created\<close> is the global \<open>_cdp_client\<close> being set. \<open>get_cdp_client\<close> assigns it
  before it calls \<open>connect()\<close>, so it stays set when the connection fails.
\<close>

definition get_cdp_client :: "env \<Rightarrow> string \<Rightarrow> run_state \<Rightarrow> bool \<times> run_state" where
  "get_cdp_client e url st =
     (if \<not> CDP_AVAILABLE e then (False, st)
      else if client_created st then (True, st)
      else (cdp_connect_ok e url, st\<lparr>client_created := True\<rparr>))"

definition fetch_notion :: "env \<Rightarrow> string \<Rightarrow> run_state \<Rightarrow> (fetch_error + ustring) \<times> run_state" where
  "fetch_notion e url st =
     (case get_cdp_client e url st of
        (False, st') \<Rightarrow> (Inl CdpUnavailable, st')
      | (True, st') \<Rightarrow>
          (case cdp_fetch_html e url of
             Inl ex \<Rightarrow> Inl (CdpError ex)
           | Inr (html, code_block_texts) \<Rightarrow>
               if length html < 500 then Inl PageDidNotLoad
               else (case html_to_markdown (render e) html code_block_texts of
                       Inl ex \<Rightarrow> Inl (CdpError ex)
                     | Inr text \<Rightarrow>
                         if length text < 200 then Inl NoMeaningfulContent
                         else Inr (map of_char text)),
           st'))"

definition export_url :: "string \<Rightarrow> string \<Rightarrow> string" where
  "export_url url doc_id =
     (if str_contains ''spreadsheets'' url
      then ''https://docs.google.com/spreadsheets/d/'' @ doc_id @ ''/export?format=csv''
      else ''https://docs.google.com/document/d/'' @ doc_id @ ''/export?format=txt'')"

definition fetch_gdoc :: "env \<Rightarrow> string \<Rightarrow> fetch_error + ustring" where
  "fetch_gdoc e url =
     (case re_search match_doc_id url of
        None \<Rightarrow> Inl NoDocId
      | Some doc_id \<Rightarrow>
          (case urlopen_read (http_get e (export_url url doc_id)) of
             Body body \<Rightarrow> Inr (decode_utf8_replace body)
           | RaisedHTTPError code reason \<Rightarrow>
               if code = 403 then Inl AccessDenied else Inl (HttpError code reason)
           | RaisedOther ex \<Rightarrow> Inl (FetchError ex)))"

definition CDP_DOMAINS :: "string list" where
  "CDP_DOMAINS = [''notion.so'', ''notion.site'']"

definition fetch_resource ::
  "env \<Rightarrow> string \<Rightarrow> string \<Rightarrow> run_state \<Rightarrow> (fetch_error + ustring) \<times> run_state" where
  "fetch_resource e url domain st =
     (if domain \<in> set CDP_DOMAINS then fetch_notion e url st
      else if str_contains ''docs.google.com'' url then (fetch_gdoc e url, st)
      else (Inl (UnsupportedDomain domain), st))"

section \<open>Sync orchestrator\<close>

subsection \<open>The covered set\<close>

datatype json =
    JNull
  | JBool bool
  | JInt int
  | JFloat string
  | JStr string
  | JArr "json list"
  | JObj "(string \<times> json) list"

text \<open>
  What \<open>json.loads(jf.read_text())\<close> gives for one file of the capture store:
  \<open>read_text\<close> raises, \<open>json.loads\<close> raises, or a value.
\<close>

datatype file_read = Unreadable | NotJson | Parsed json

record scraped =
  scraped_url :: string
  scraped_file :: string
  content_length :: json

definition dict_get :: "(string \<times> json) list \<Rightarrow> string \<Rightarrow> json \<Rightarrow> json" where
  \<comment> \<open>\<open>meta.get(key, default)\<close>; of a repeated key \<open>json.loads\<close> keeps the last value\<close>
  "dict_get kvs key dflt = (case map_of (rev kvs) key of Some v \<Rightarrow> v | None \<Rightarrow> dflt)"

definition path_stem :: "string \<Rightarrow> string" where
  \<comment> \<open>\<open>jf.stem\<close>: the name up to its last dot, unless that dot is first or last\<close>
  "path_stem name =
     (let after = takeWhile (\<lambda>c. c \<noteq> CHR ''.'') (rev name);
          i = length name - length after - 1
      in if CHR ''.'' \<in> set name \<and> 0 < i \<and> i < length name - 1 then take i name else name)"

text \<open>
  The body of the \<open>try\<close> in \<open>get_scraped_keys\<close>; \<open>None\<close> stands for an exception, which the
  \<open>except Exception: pass\<close> swallows: \<open>read_text\<close> or \<open>json.loads\<close> raising, \<open>meta.get\<close> on a
  value that is not an object (\<open>AttributeError\<close>), \<open>re.search\<close> on a \<open>url\<close> that is not a
  string (\<open>TypeError\<close>).
\<close>

definition scrape_entry :: "string \<Rightarrow> file_read \<Rightarrow> (url_key \<times> scraped) option" where
  "scrape_entry name r =
     (case r of
        Parsed (JObj kvs) \<Rightarrow>
          (case dict_get kvs ''url'' (JStr []) of
             JStr u \<Rightarrow>
               Some (normalize_url u,
                     \<lparr>scraped_url = u, scraped_file = path_stem name,
                      content_length = dict_get kvs ''content_length'' (JInt 0)\<rparr>)
           | _ \<Rightarrow> None)
      | _ \<Rightarrow> None)"

fun scan_files ::
  "(string \<times> file_read) list \<Rightarrow> (url_key \<rightharpoonup> scraped) \<Rightarrow> (url_key \<rightharpoonup> scraped)" where
  "scan_files [] keys = keys"
| "scan_files ((name, r) # rest) keys =
     (if name = ''manifest.json'' then scan_files rest keys
      else (case scrape_entry name r of
              Some (key, v) \<Rightarrow> scan_files rest (keys(key \<mapsto> v))
            | None \<Rightarrow> scan_files rest keys))"

definition get_scraped_keys :: "(string \<times> file_read) list \<Rightarrow> (url_key \<rightharpoonup> scraped)" where
  \<comment> \<open>the argument lists the entries of \<open>RESOURCES_DIR\<close> in the order \<open>glob\<close> yields them\<close>
  "get_scraped_keys dir =
     scan_files (filter (\<lambda>(name, r). suffix ''.json'' name) dir) Map.empty"

subsection \<open>The uncovered set\<close>

record info =
  info_url :: string
  post_asset_id :: string
  project_id :: string
  post_name :: string

definition uncovered_of ::
  "string option \<Rightarrow> (url_key \<times> info) list \<Rightarrow> (url_key \<rightharpoonup> 'a) \<Rightarrow> (url_key \<times> info) list" where
  \<comment> \<open>\<open>domain\<close> is \<open>args.domain\<close>: \<open>None\<close> without the option; an empty string is falsy too\<close>
  "uncovered_of domain db_urls scraped_keys =
     (let uncovered = filter (\<lambda>(k, v). scraped_keys k = None) db_urls;
          uncovered = (case domain of
                         None \<Rightarrow> uncovered
                       | Some d \<Rightarrow> if d \<noteq> [] then filter (\<lambda>(k, v). fst k = d) uncovered
                                   else uncovered)
      in filter (\<lambda>(k, v). fst k \<noteq> ''gdrive'') uncovered)"

text \<open>The optional filter of \<open>--domain\<close> as a predicate on keys.\<close>

definition wanted :: "string option \<Rightarrow> url_key \<Rightarrow> bool" where
  "wanted domain k \<longleftrightarrow> (case domain of None \<Rightarrow> True | Some d \<Rightarrow> d = [] \<or> fst k = d)"

subsection \<open>The main loop\<close>

datatype abort = UrlError string url_error | WriteFailed string | MkdirFailed

datatype exit = Normal | SysExit nat | Crashed abort

definition log_event :: "event \<Rightarrow> run_state \<Rightarrow> run_state" where
  "log_event ev st = st\<lparr>trace := trace st @ [ev]\<rparr>"

fun main_loop ::
  "env \<Rightarrow> bool \<Rightarrow> bool \<Rightarrow> (url_key \<times> info) list \<Rightarrow> run_state \<Rightarrow> abort + run_state" where
  "main_loop e dry_run cdp_available [] st = Inr st"
| "main_loop e dry_run cdp_available ((key, item) # items) st =
     (let url = info_url item in
      case get_domain url of
        Inl err \<Rightarrow> Inl (UrlError url err)
      | Inr domain \<Rightarrow>
          let rtype = fst key in
          if rtype = ''notion'' \<and> \<not> cdp_available
          then main_loop e dry_run cdp_available items
                 (log_event (Skipped url) (st\<lparr>skipped_cdp := skipped_cdp st + 1\<rparr>))
          else if dry_run
          then main_loop e dry_run cdp_available items (log_event (Previewed url) st)
          else
            (case fetch_resource e url domain st of
               (Inl err, st') \<Rightarrow>
                 main_loop e dry_run cdp_available items
                   (log_event (Failed url err) (st'\<lparr>failed := failed st' + 1\<rparr>))
             | (Inr content, st') \<Rightarrow>
                 if write_ok e url
                 then main_loop e dry_run cdp_available items
                        (log_event (Saved url (length content))
                           (st'\<lparr>extracted := extracted st' + 1\<rparr>))
                 else Inl (WriteFailed url)))"

definition initial_state :: run_state where
  "initial_state =
     \<lparr>extracted = 0, failed = 0, skipped_cdp = 0, client_created = False, trace = []\<rparr>"

definition sync_items :: "(url_key \<times> info) list \<Rightarrow> (url_key \<times> info) list" where
  \<comment> \<open>\<open>sorted(uncovered.items(), key=lambda x: x[1]["url"])\<close>, a stable sort\<close>
  "sync_items uncovered = sort_key (\<lambda>(k, v). info_url v) uncovered"

definition sync ::
  "env \<Rightarrow> string option \<Rightarrow> bool \<Rightarrow> (url_key \<times> info) list \<Rightarrow> (url_key \<rightharpoonup> 'a) \<Rightarrow>
   exit \<times> run_state" where
  "sync e domain dry_run db_urls scraped_keys =
     (let uncovered = uncovered_of domain db_urls scraped_keys in
      if uncovered = [] then (Normal, initial_state)
      else
        let needs_cdp = list_ex (\<lambda>(k, v). fst k = ''notion'') uncovered;
            cdp_available = (if needs_cdp then check_cdp_available e else False)
        in if \<not> mkdir_ok e then (Crashed MkdirFailed, initial_state)
           else (case main_loop e dry_run cdp_available (sync_items uncovered) initial_state of
                   Inl a \<Rightarrow> (Crashed a, initial_state)
                 | Inr st \<Rightarrow> (Normal, st)))"

subsection \<open>The re-scrape mode\<close>

record asset =
  asset_id :: string
  asset_name :: string
  published_url :: string

text \<open>
  \<open>published_url\<close> is \<open>asset.get("published_url", "")\<close>, empty when the field is missing or
  null. The counter \<open>success\<close> of \<open>rescrape_notion\<close> is the field \<open>extracted\<close> of the state.
\<close>

fun rescrape_loop :: "env \<Rightarrow> asset list \<Rightarrow> run_state \<Rightarrow> abort + run_state" where
  "rescrape_loop e [] st = Inr st"
| "rescrape_loop e (a # assets) st =
     (let url = published_url a in
      if url = [] then rescrape_loop e assets (log_event (NoUrl (asset_name a)) st)
      else
        (case get_domain url of
           Inl err \<Rightarrow> Inl (UrlError url err)
         | Inr domain \<Rightarrow>
             (case fetch_notion e url st of
                (Inl err, st') \<Rightarrow>
                  rescrape_loop e assets
                    (log_event (Failed url err) (st'\<lparr>failed := failed st' + 1\<rparr>))
              | (Inr content, st') \<Rightarrow>
                  if \<not> write_ok e url then Inl (WriteFailed url)
                  else if db_update_ok e (asset_id a)
                  then rescrape_loop e assets
                         (log_event (Saved url (length content))
                            (st'\<lparr>extracted := extracted st' + 1\<rparr>))
                  else rescrape_loop e assets
                         (log_event (DbUpdateFailed url)
                            (st'\<lparr>failed := failed st' + 1\<rparr>)))))"

definition rescrape_notion :: "env \<Rightarrow> bool \<Rightarrow> asset list \<Rightarrow> exit \<times> run_state" where
  \<comment> \<open>\<open>assets\<close> is what \<open>get_notion_asset_urls()\<close> returned\<close>
  "rescrape_notion e dry_run assets =
     (if \<not> MARKDOWNIFY_AVAILABLE e then (SysExit 1, initial_state)
      else if assets = [] then (Normal, initial_state)
      else if \<not> check_cdp_available e then (SysExit 1, initial_state)
      else if dry_run then (Normal, initial_state)
      else if \<not> mkdir_ok e then (Crashed MkdirFailed, initial_state)
      else (case rescrape_loop e assets initial_state of
              Inl a \<Rightarrow> (Crashed a, initial_state)
            | Inr st \<Rightarrow> (Normal, st)))"

subsection \<open>Reading a run\<close>

text \<open>
  The trace of a run lists what happened to each item, in order. \<open>visited_as\<close> says which
  event the main loop may leave for an item; \<open>item_ok\<close> says that what the loop does
  outside the fetch succeeds for it: \<open>urlparse\<close> accepts the URL and the files can be
  written.
\<close>

fun event_url :: "event \<Rightarrow> string" where
  "event_url (Skipped u) = u"
| "event_url (Previewed u) = u"
| "event_url (Failed u err) = u"
| "event_url (Saved u n) = u"
| "event_url (NoUrl name) = name"
| "event_url (DbUpdateFailed u) = u"

fun is_failure :: "event \<Rightarrow> bool" where
  "is_failure (Failed u err) = True"
| "is_failure ev = False"

fun is_saved :: "event \<Rightarrow> bool" where
  "is_saved (Saved u n) = True"
| "is_saved ev = False"

fun is_skipped :: "event \<Rightarrow> bool" where
  "is_skipped (Skipped u) = True"
| "is_skipped ev = False"

definition visited_as :: "bool \<Rightarrow> bool \<Rightarrow> url_key \<times> info \<Rightarrow> event \<Rightarrow> bool" where
  "visited_as dry_run cdp_available item ev \<longleftrightarrow>
     (if fst (fst item) = ''notion'' \<and> \<not> cdp_available then ev = Skipped (info_url (snd item))
      else if dry_run then ev = Previewed (info_url (snd item))
      else (\<exists>err. ev = Failed (info_url (snd item)) err) \<or>
           (\<exists>n. ev = Saved (info_url (snd item)) n))"

definition item_ok :: "env \<Rightarrow> url_key \<times> info \<Rightarrow> bool" where
  "item_ok e item \<longleftrightarrow>
     (\<exists>d. get_domain (info_url (snd item)) = Inr d) \<and> write_ok e (info_url (snd item))"

subsection \<open>A sample run\<close>

text \<open>
  An environment without a browser, in which the export of one document answers with
  status 500 and every other export with the two bytes \<open>hi\<close>, and a corpus of three
  references, listed in the order of their URLs.
\<close>

definition offline_env :: env where
  "offline_env =
     \<lparr>CDP_AVAILABLE = False, MARKDOWNIFY_AVAILABLE = True, cdp_probe_ok = False,
      cdp_connect_ok = (\<lambda>u. False), cdp_fetch_html = (\<lambda>u. Inl ''no browser''),
      render = (\<lambda>html cbt. Inr html),
      http_get = (\<lambda>u. if u = ''https://docs.google.com/document/d/bad/export?format=txt''
                        then Response 500 ''Internal Server Error'' []
                        else Response 200 ''OK'' [0x68, 0x69]),
      mkdir_ok = True, write_ok = (\<lambda>u. True), db_update_ok = (\<lambda>u. True)\<rparr>"

definition sample_info :: "string \<Rightarrow> info" where
  "sample_info u = \<lparr>info_url = u, post_asset_id = ''a1'', project_id = ''p1'', post_name = ''Post''\<rparr>"

definition sample_db :: "(url_key \<times> info) list" where
  "sample_db =
     [((''gdoc'', ''bad''), sample_info ''https://docs.google.com/document/d/bad''),
      ((''gdoc'', ''ok''), sample_info ''https://docs.google.com/document/d/ok''),
      ((''notion'', ''0123456789abcdef0123456789abcdef''),
         sample_info ''https://notion.so/P-0123456789abcdef0123456789abcdef'')]"

section \<open>Properties of the URL normalizer\<close>


lemma tail_char_classes:
  assumes "c \<in> set ''?#).,;''"
  shows "\<not> is_word_char c" "\<not> is_id_char c" "\<not> is_hex c"
    "c \<notin> set ''notion''" "c \<notin> set ''spreadsheets''" "c \<notin> set ''/d/''" "c \<notin> set ''/folders/''"
  using assms by (auto simp: is_word_char_def is_id_char_def is_hex_def)

lemma re_search_append:
  assumes "m [] = None" and "\<And>p. p \<noteq> [] \<Longrightarrow> m (p @ s) = m p"
  shows "re_search m (u @ s) = (case re_search m u of Some g \<Rightarrow> Some g | None \<Rightarrow> re_search m s)"
proof (induction u)
  case Nil
  show ?case using assms(1) by simp
next
  case (Cons a u)
  have "m (a # u @ s) = m (a # u)" using assms(2) [of "a # u"] by simp
  then show ?case using Cons by (simp split: option.splits)
qed

lemma prefix_append_stable:
  assumes "s = [] \<or> hd s \<notin> set w" and "p \<noteq> []"
  shows "prefix w (p @ s) \<longleftrightarrow> prefix w p"
proof
  assume "prefix w (p @ s)"
  then have "prefix w p \<or> (\<exists>us. us \<noteq> [] \<and> prefix us s \<and> w = p @ us)"
    by (auto simp: prefix_append)
  then show "prefix w p"
  proof
    assume "prefix w p" then show ?thesis .
  next
    assume "\<exists>us. us \<noteq> [] \<and> prefix us s \<and> w = p @ us"
    then obtain us where us: "us \<noteq> []" "prefix us s" "w = p @ us" by blast
    then have "s \<noteq> []" "hd us = hd s" by (auto simp: prefix_def)
    moreover have "hd us \<in> set w" using us by (cases us) auto
    ultimately show ?thesis using assms by auto
  qed
next
  assume "prefix w p" then show "prefix w (p @ s)" by (simp add: prefix_prefix)
qed

lemma str_contains_Nil: "str_contains [] s"
  by (cases s) auto

lemma str_contains_append:
  assumes "w \<noteq> []" and "s = [] \<or> hd s \<notin> set w"
  shows "str_contains w (u @ s) \<longleftrightarrow> str_contains w u \<or> str_contains w s"
proof (induction u)
  case Nil
  show ?case using assms(1) by simp
next
  case (Cons a u)
  have "prefix w (a # u @ s) = prefix w (a # u)"
    using prefix_append_stable [OF assms(2), of "a # u"] by simp
  then show ?case using Cons by auto
qed

lemma str_contains_mono: "str_contains w u \<Longrightarrow> str_contains w (u @ s)"
proof (induction u)
  case Nil
  then show ?case by (simp add: str_contains_Nil)
next
  case (Cons a u)
  have "prefix w (a # u) \<Longrightarrow> prefix w (a # u @ s)"
    using prefix_prefix [of w "a # u" s] by simp
  then show ?case using Cons by auto
qed

lemma match_hex32_stable:
  assumes "s = [] \<or> \<not> is_word_char (hd s)" and "p \<noteq> []"
  shows "match_hex32 (p @ s) = match_hex32 p"
proof -
  have w: "is_hex c \<Longrightarrow> is_word_char c" for c
    by (auto simp: is_hex_def is_word_char_def)
  consider "length p < 32" | "length p = 32" | "32 < length p" by linarith
  then show ?thesis
  proof cases
    case 1
    have "\<not> (length (take 32 (p @ s)) = 32 \<and> list_all is_hex (take 32 (p @ s)))"
    proof
      assume a: "length (take 32 (p @ s)) = 32 \<and> list_all is_hex (take 32 (p @ s))"
      then have "s \<noteq> []" using 1 by auto
      then have "hd s \<in> set (take 32 (p @ s))" using 1
        by (cases s) (auto simp: take_Cons')
      then have "is_hex (hd s)" using a by (auto simp: list_all_iff)
      then show False using assms(1) \<open>s \<noteq> []\<close> w by auto
    qed
    then show ?thesis using 1 by (auto simp: match_hex32_def Let_def)
  next
    case 2
    then show ?thesis using assms(1) by (auto simp: match_hex32_def Let_def)
  next
    case 3
    then have "hd (drop 32 (p @ s)) = hd (drop 32 p)" "drop 32 p \<noteq> []"
      by (auto simp: hd_append)
    then show ?thesis using 3 by (auto simp: match_hex32_def Let_def)
  qed
qed

lemma id_run_stable:
  assumes "s = [] \<or> \<not> is_id_char (hd s)"
  shows "id_run (p @ s) = id_run p"
proof -
  have "takeWhile is_id_char s = []" using assms by (cases s) auto
  then have "takeWhile is_id_char (p @ s) = takeWhile is_id_char p"
    by (induction p) auto
  then show ?thesis by (simp add: id_run_def)
qed

lemma match_doc_id_stable:
  assumes "url_tail s" and "p \<noteq> []"
  shows "match_doc_id (p @ s) = match_doc_id p"
proof -
  have a: "s = [] \<or> hd s \<notin> set ''/d/''" and b: "s = [] \<or> \<not> is_id_char (hd s)"
    using assms(1) tail_char_classes unfolding url_tail_def by blast+
  have pre: "prefix ''/d/'' (p @ s) = prefix ''/d/'' p"
    by (rule prefix_append_stable [OF a assms(2)])
  have "prefix ''/d/'' p \<Longrightarrow> drop 3 (p @ s) = drop 3 p @ s"
    by (auto simp: prefix_def)
  then show ?thesis using pre id_run_stable [OF b]
    by (auto simp: match_doc_id_def)
qed

lemma match_drive_id_stable:
  assumes "url_tail s" and "p \<noteq> []"
  shows "match_drive_id (p @ s) = match_drive_id p"
proof -
  have a: "s = [] \<or> hd s \<notin> set ''/d/''" and a': "s = [] \<or> hd s \<notin> set ''/folders/''"
    and b: "s = [] \<or> \<not> is_id_char (hd s)"
    using assms(1) tail_char_classes unfolding url_tail_def by blast+
  have pre: "prefix ''/d/'' (p @ s) = prefix ''/d/'' p"
    by (rule prefix_append_stable [OF a assms(2)])
  have pre': "prefix ''/folders/'' (p @ s) = prefix ''/folders/'' p"
    by (rule prefix_append_stable [OF a' assms(2)])
  have "prefix ''/d/'' p \<Longrightarrow> drop 3 (p @ s) = drop 3 p @ s"
    and "prefix ''/folders/'' p \<Longrightarrow> drop 9 (p @ s) = drop 9 p @ s"
    by (auto simp: prefix_def)
  then show ?thesis using pre pre' id_run_stable [OF b]
    by (auto simp: match_drive_id_def)
qed


lemma str_contains_prefix: "prefix w u \<Longrightarrow> str_contains w u"
  by (cases u) auto

lemma str_contains_middle: "str_contains w (x @ w @ y)"
  by (induction x) (auto simp: str_contains_prefix)

lemma str_contains_suffix_part:
  "str_contains (a @ w) u \<Longrightarrow> str_contains w u"
proof (induction u)
  case Nil
  then show ?case by simp
next
  case (Cons c cs)
  show ?case
  proof (cases "prefix (a @ w) (c # cs)")
    case True
    then obtain r where "c # cs = a @ w @ r" by (auto simp: prefix_def)
    then show ?thesis using str_contains_middle [of w a r] by simp
  next
    case False
    then show ?thesis using Cons by auto
  qed
qed

lemma drive_marker_google:
  "str_contains ''drive.google.com'' u \<Longrightarrow> str_contains ''google.com'' u"
  using str_contains_suffix_part [of "''drive.''" "''google.com''" u] by simp

lemma normalize_url_branches:
  "normalize_url u =
     (if notion_fires u then (''notion'', the (re_search match_hex32 u))
      else if google_fires u
      then (if str_contains ''spreadsheets'' u then ''gsheet'' else ''gdoc'',
            the (re_search match_doc_id u))
      else if drive_fires u then (''gdrive'', the (re_search match_drive_id u))
      else (''other'', u))"
  by (auto simp: normalize_url_def Let_def notion_fires_def google_fires_def drive_fires_def
      split: option.splits)

lemma normalize_url_tail:
  assumes t: "url_tail s"
    and k: "fst (normalize_url u) = ''notion'' \<or>
            (fst (normalize_url u) \<noteq> ''other'' \<and> marker_free s)"
  shows "normalize_url (u @ s) = normalize_url u"
proof -
  have w: "s = [] \<or> \<not> is_word_char (hd s)"
    and n: "s = [] \<or> hd s \<notin> set ''notion''"
    and sp: "s = [] \<or> hd s \<notin> set ''spreadsheets''"
    using t tail_char_classes unfolding url_tail_def by blast+
  have H: "re_search match_hex32 (u @ s) =
      (case re_search match_hex32 u of Some g \<Rightarrow> Some g | None \<Rightarrow> re_search match_hex32 s)"
  proof (rule re_search_append)
    show "match_hex32 [] = None" by (simp add: match_hex32_def)
    show "\<And>p. p \<noteq> [] \<Longrightarrow> match_hex32 (p @ s) = match_hex32 p" by (rule match_hex32_stable [OF w])
  qed
  have D: "re_search match_doc_id (u @ s) =
      (case re_search match_doc_id u of Some g \<Rightarrow> Some g | None \<Rightarrow> re_search match_doc_id s)"
  proof (rule re_search_append)
    show "match_doc_id [] = None" by (simp add: match_doc_id_def)
    show "\<And>p. p \<noteq> [] \<Longrightarrow> match_doc_id (p @ s) = match_doc_id p" by (rule match_doc_id_stable [OF t])
  qed
  have R: "re_search match_drive_id (u @ s) =
      (case re_search match_drive_id u of Some g \<Rightarrow> Some g | None \<Rightarrow> re_search match_drive_id s)"
  proof (rule re_search_append)
    show "match_drive_id [] = None" by (simp add: match_drive_id_def)
    show "\<And>p. p \<noteq> [] \<Longrightarrow> match_drive_id (p @ s) = match_drive_id p" by (rule match_drive_id_stable [OF t])
  qed
  have Cn: "str_contains ''notion'' (u @ s) = (str_contains ''notion'' u \<or> str_contains ''notion'' s)"
    by (rule str_contains_append [OF _ n]) simp
  have Cs: "str_contains ''spreadsheets'' (u @ s) =
      (str_contains ''spreadsheets'' u \<or> str_contains ''spreadsheets'' s)"
    by (rule str_contains_append [OF _ sp]) simp
  have Cg: "str_contains ''google.com'' u \<Longrightarrow> str_contains ''google.com'' (u @ s)"
    and Cd: "str_contains ''drive.google.com'' u \<Longrightarrow> str_contains ''drive.google.com'' (u @ s)"
    by (rule str_contains_mono, assumption)+
  note G = drive_marker_google [of u]
  show ?thesis
  proof (cases "notion_fires u")
    case True
    then have "notion_fires (u @ s)"
      and "re_search match_hex32 (u @ s) = re_search match_hex32 u"
      using H Cn by (auto simp: notion_fires_def)
    then show ?thesis using True by (simp add: normalize_url_branches)
  next
    case notion: False
    then have mf: "marker_free s" and ty: "fst (normalize_url u) \<noteq> ''other''"
      using k by (auto simp: normalize_url_branches split: if_splits)
    have notion': "\<not> notion_fires (u @ s)"
      using notion mf H Cn by (auto simp: notion_fires_def marker_free_def split: option.splits)
    show ?thesis
    proof (cases "google_fires u")
      case True
      then have "google_fires (u @ s)"
        and "re_search match_doc_id (u @ s) = re_search match_doc_id u"
        and "str_contains ''spreadsheets'' (u @ s) = str_contains ''spreadsheets'' u"
        using D Cg Cs mf by (auto simp: google_fires_def marker_free_def)
      then show ?thesis using True notion notion' by (simp add: normalize_url_branches)
    next
      case doc: False
      then have dr: "drive_fires u"
        using notion ty by (auto simp: normalize_url_branches split: if_splits)
      then have "re_search match_doc_id u = None"
        using doc G by (auto simp: google_fires_def drive_fires_def)
      then have "re_search match_doc_id (u @ s) = None" using D mf by (simp add: marker_free_def)
      then have doc': "\<not> google_fires (u @ s)" by (simp add: google_fires_def)
      have "drive_fires (u @ s)"
        and "re_search match_drive_id (u @ s) = re_search match_drive_id u"
        using dr R Cd by (auto simp: drive_fires_def)
      then show ?thesis using notion notion' doc doc' dr by (simp add: normalize_url_branches)
    qed
  qed
qed

text \<open>
  C1 (as amended). Let \<open>u\<close> be a URL and \<open>s1\<close>, \<open>s2\<close> two tails: each empty or beginning with
  \<open>?\<close>, \<open>#\<close> or one of the trailing punctuation characters \<open>).,;\<close>. If \<open>normalize_url\<close>
  finds a Notion id in \<open>u\<close>, then \<open>u\<close> followed by \<open>s1\<close> and \<open>u\<close> followed by \<open>s2\<close> have the
  same key. The same holds when it finds a Google document, sheet or Drive folder id in
  \<open>u\<close> and the tails are marker free, that is, hold no 32-hex id, no \<open>/d/<id>\<close>, and
  neither \<open>notion\<close> nor \<open>spreadsheets\<close>. A URL of type \<open>other\<close> is keyed by the whole
  string, so there any tail changes the key.
\<close>

theorem normalize_url_same_key:
  assumes "url_tail s1" and "url_tail s2"
    and "fst (normalize_url u) = ''notion'' \<or>
         (fst (normalize_url u) \<noteq> ''other'' \<and> marker_free s1 \<and> marker_free s2)"
  shows "normalize_url (u @ s1) = normalize_url (u @ s2)"
proof -
  have "normalize_url (u @ s1) = normalize_url u"
    using assms by (intro normalize_url_tail) auto
  moreover have "normalize_url (u @ s2) = normalize_url u"
    using assms by (intro normalize_url_tail) auto
  ultimately show ?thesis by simp
qed

theorem normalize_url_same_key_witness:
  "url_tail ''?pvs=4'' \<and> url_tail '').'' \<and>
   fst (normalize_url ''notion.so/P-0123456789abcdef0123456789abcdef'') = ''notion'' \<and>
   normalize_url (''notion.so/P-0123456789abcdef0123456789abcdef'' @ ''?pvs=4'') =
   normalize_url (''notion.so/P-0123456789abcdef0123456789abcdef'' @ '').'') \<and>
   url_tail ''#h.1'' \<and> marker_free ''?pvs=4'' \<and> marker_free ''#h.1'' \<and>
   fst (normalize_url ''docs.google.com/document/d/ab1'') \<noteq> ''other'' \<and>
   normalize_url (''docs.google.com/document/d/ab1'' @ ''?pvs=4'') =
   normalize_url (''docs.google.com/document/d/ab1'' @ ''#h.1'')"
proof -
  have h1: "url_tail ''?pvs=4''" and h2: "url_tail '').''" and h4: "url_tail ''#h.1''"
    by (simp_all add: url_tail_def)
  have h3: "fst (normalize_url ''notion.so/P-0123456789abcdef0123456789abcdef'') = ''notion''"
    by code_simp
  have h5: "marker_free ''?pvs=4''" and h6: "marker_free ''#h.1''"
    by code_simp+
  have h7: "fst (normalize_url ''docs.google.com/document/d/ab1'') \<noteq> ''other''"
    by code_simp
  have g: "fst (normalize_url ''docs.google.com/document/d/ab1'') = ''notion'' \<or>
           (fst (normalize_url ''docs.google.com/document/d/ab1'') \<noteq> ''other'' \<and>
            marker_free ''?pvs=4'' \<and> marker_free ''#h.1'')"
    using h5 h6 h7 by blast
  from normalize_url_same_key [OF h1 h2 disjI1 [OF h3]] normalize_url_same_key [OF h1 h4 g]
    h1 h2 h3 h4 h5 h6 h7
  show ?thesis by blast
qed

theorem normalize_url_same_key_counterexample:
  "url_tail ''?pvs=4'' \<and>
   normalize_url (''https://www.notion.so/product'' @ ''?pvs=4'') \<noteq>
   normalize_url (''https://www.notion.so/product'' @ [])"
  by code_simp

text \<open>
  C3 (as amended). \<open>normalize_url\<close> is a total function of the URL string: for every
  string it returns a key of one of the five source types. For every URL that contains
  neither \<open>notion\<close> nor \<open>google.com\<close> anywhere in the string (not only in its host) it
  returns \<open>("other", url)\<close> with the URL unchanged.
\<close>

theorem normalize_url_fallback:
  "fst (normalize_url url) \<in> set [''notion'', ''gdoc'', ''gsheet'', ''gdrive'', ''other''] \<and>
   (\<not> str_contains ''notion'' url \<and> \<not> str_contains ''google.com'' url \<longrightarrow>
      normalize_url url = (''other'', url))"
  using drive_marker_google [of url]
  by (auto simp: normalize_url_branches notion_fires_def google_fires_def drive_fires_def)

theorem normalize_url_fallback_witness:
  "\<not> str_contains ''notion'' ''https://example.com/a?b=1'' \<and>
   \<not> str_contains ''google.com'' ''https://example.com/a?b=1'' \<and>
   normalize_url ''https://example.com/a?b=1'' = (''other'', ''https://example.com/a?b=1'')"
proof -
  have h1: "\<not> str_contains ''notion'' ''https://example.com/a?b=1''" by simp
  have h2: "\<not> str_contains ''google.com'' ''https://example.com/a?b=1''" by simp
  from normalize_url_fallback [of "''https://example.com/a?b=1''"] h1 h2 show ?thesis by blast
qed

text \<open>
  The markers are looked for in the whole string: a URL whose host is \<open>example.com\<close>
  gets a Notion key when its path holds the marker and an id.
\<close>

theorem normalize_url_fallback_counterexample:
  "get_domain ''https://example.com/notion-0123456789abcdef0123456789abcdef'' = Inr ''example.com'' \<and>
   \<not> str_contains ''notion'' ''example.com'' \<and>
   \<not> str_contains ''google.com'' ''example.com'' \<and>
   normalize_url ''https://example.com/notion-0123456789abcdef0123456789abcdef'' \<noteq>
     (''other'', ''https://example.com/notion-0123456789abcdef0123456789abcdef'')"
  by code_simp

subsection \<open>The order of the branches\<close>

lemma re_search_Some:
  "re_search m u = Some g \<Longrightarrow> \<exists>p q. u = p @ q \<and> m q = Some g"
proof (induction u)
  case Nil
  then show ?case by simp
next
  case (Cons c cs)
  show ?case
  proof (cases "m (c # cs)")
    case None
    then obtain p q where "cs = p @ q" "m q = Some g" using Cons by auto
    then have "c # cs = (c # p) @ q \<and> m q = Some g" by simp
    then show ?thesis by blast
  next
    case (Some h)
    then have "c # cs = [] @ (c # cs) \<and> m (c # cs) = Some g" using Cons.prems by simp
    then show ?thesis by blast
  qed
qed

lemma re_search_None: "re_search m (p @ q) = None \<Longrightarrow> m q = None"
  by (induction p) (auto split: option.splits, cases q, auto split: option.splits)

lemma id_run_Some:
  "id_run s = Some g \<Longrightarrow> g \<noteq> [] \<and> list_all is_id_char g \<and> prefix g s"
  by (auto simp: id_run_def Let_def list_all_iff prefix_def split: if_splits
      dest: set_takeWhileD intro: takeWhile_dropWhile_id [symmetric])

lemma hex_id_shape:
  assumes "re_search match_hex32 u = Some g"
  shows "length g = 32 \<and> list_all is_hex g \<and> str_contains g u"
proof -
  obtain p q where u: "u = p @ q" and m: "match_hex32 q = Some g"
    using re_search_Some [OF assms] by blast
  from m have g: "length g = 32" "list_all is_hex g" "g = take 32 q"
    by (auto simp: match_hex32_def Let_def split: if_splits)
  have "q = g @ drop 32 q" using g(3) by simp
  then have "u = p @ g @ drop 32 q" using u by simp
  then have "str_contains g u" using str_contains_middle [of g p "drop 32 q"] by simp
  then show ?thesis using g by simp
qed

lemma doc_id_shape:
  assumes "re_search match_doc_id u = Some g"
  shows "g \<noteq> [] \<and> list_all is_id_char g \<and> str_contains (''/d/'' @ g) u"
proof -
  obtain p q where u: "u = p @ q" and m: "match_doc_id q = Some g"
    using re_search_Some [OF assms] by blast
  from m have pre: "prefix ''/d/'' q" and r: "id_run (drop 3 q) = Some g"
    by (auto simp: match_doc_id_def split: if_splits)
  from pre have q: "q = ''/d/'' @ drop 3 q" by (auto simp: prefix_def)
  from id_run_Some [OF r] obtain t where t: "drop 3 q = g @ t" and g: "g \<noteq> []" "list_all is_id_char g"
    by (auto simp: prefix_def)
  have "u = p @ (''/d/'' @ g) @ t" using u q t by (metis append.assoc)
  then have "str_contains (''/d/'' @ g) u" using str_contains_middle [of "''/d/'' @ g" p t] by simp
  then show ?thesis using g by simp
qed

lemma match_drive_id_folders:
  "match_doc_id q = None \<Longrightarrow> match_drive_id q = Some g \<Longrightarrow>
   prefix ''/folders/'' q \<and> id_run (drop 9 q) = Some g"
  by (auto simp: match_doc_id_def match_drive_id_def split: if_splits)

lemma drive_id_shape:
  assumes "re_search match_doc_id u = None" and "re_search match_drive_id u = Some g"
  shows "g \<noteq> [] \<and> list_all is_id_char g \<and> str_contains (''/folders/'' @ g) u"
proof -
  obtain p q where u: "u = p @ q" and m: "match_drive_id q = Some g"
    using re_search_Some [OF assms(2)] by blast
  have "match_doc_id q = None" using assms(1) u re_search_None by blast
  from match_drive_id_folders [OF this m]
  have pre: "prefix ''/folders/'' q" and r: "id_run (drop 9 q) = Some g" by simp_all
  from pre have q: "q = ''/folders/'' @ drop 9 q" by (auto simp: prefix_def)
  from id_run_Some [OF r] obtain t where t: "drop 9 q = g @ t" and g: "g \<noteq> []" "list_all is_id_char g"
    by (auto simp: prefix_def)
  have "u = p @ (''/folders/'' @ g) @ t" using u q t by (metis append.assoc)
  then have "str_contains (''/folders/'' @ g) u"
    using str_contains_middle [of "''/folders/'' @ g" p t] by simp
  then show ?thesis using g by simp
qed

text \<open>
  C4 (as amended). \<open>normalize_url\<close> returns type \<open>notion\<close> exactly when the URL string
  contains \<open>notion\<close> and the 32-hex pattern matches, and the id is the first such match:
  32 hex characters of the URL. Otherwise it returns \<open>gsheet\<close> or \<open>gdoc\<close> exactly when the
  URL string contains \<open>google.com\<close> and \<open>/d/<id>\<close> matches, \<open>gsheet\<close> when the string
  contains \<open>spreadsheets\<close> anywhere; the id is the run of id characters after the first
  \<open>/d/\<close>. Otherwise it returns \<open>gdrive\<close> exactly when the URL string contains
  \<open>drive.google.com\<close> and the folder pattern matches; the id then follows \<open>/folders/\<close>.
  Otherwise it returns \<open>other\<close> and the URL. The markers are searched in the whole URL
  string, not in the host or the path alone.
\<close>

theorem normalize_url_order:
  "(fst (normalize_url url) = ''notion'' \<longleftrightarrow> notion_fires url) \<and>
   (fst (normalize_url url) \<in> {''gdoc'', ''gsheet''} \<longleftrightarrow> \<not> notion_fires url \<and> google_fires url) \<and>
   (fst (normalize_url url) = ''gsheet'' \<longleftrightarrow>
      \<not> notion_fires url \<and> google_fires url \<and> str_contains ''spreadsheets'' url) \<and>
   (fst (normalize_url url) = ''gdrive'' \<longleftrightarrow>
      \<not> notion_fires url \<and> \<not> google_fires url \<and> drive_fires url) \<and>
   (fst (normalize_url url) = ''other'' \<longleftrightarrow>
      \<not> notion_fires url \<and> \<not> google_fires url \<and> \<not> drive_fires url) \<and>
   snd (normalize_url url) =
     (if notion_fires url then the (re_search match_hex32 url)
      else if google_fires url then the (re_search match_doc_id url)
      else if drive_fires url then the (re_search match_drive_id url)
      else url) \<and>
   (notion_fires url \<longrightarrow>
      length (snd (normalize_url url)) = 32 \<and> list_all is_hex (snd (normalize_url url)) \<and>
      str_contains (snd (normalize_url url)) url) \<and>
   (\<not> notion_fires url \<and> google_fires url \<longrightarrow>
      snd (normalize_url url) \<noteq> [] \<and> list_all is_id_char (snd (normalize_url url)) \<and>
      str_contains (''/d/'' @ snd (normalize_url url)) url) \<and>
   (\<not> notion_fires url \<and> \<not> google_fires url \<and> drive_fires url \<longrightarrow>
      snd (normalize_url url) \<noteq> [] \<and> list_all is_id_char (snd (normalize_url url)) \<and>
      str_contains (''/folders/'' @ snd (normalize_url url)) url)"
proof -
  have n: "notion_fires url \<Longrightarrow>
      length (snd (normalize_url url)) = 32 \<and> list_all is_hex (snd (normalize_url url)) \<and>
      str_contains (snd (normalize_url url)) url"
    using hex_id_shape [of url] by (auto simp: normalize_url_branches notion_fires_def)
  have g: "\<not> notion_fires url \<Longrightarrow> google_fires url \<Longrightarrow>
      snd (normalize_url url) \<noteq> [] \<and> list_all is_id_char (snd (normalize_url url)) \<and>
      str_contains (''/d/'' @ snd (normalize_url url)) url"
    using doc_id_shape [of url] by (auto simp: normalize_url_branches google_fires_def)
  have d: "\<not> notion_fires url \<Longrightarrow> \<not> google_fires url \<Longrightarrow> drive_fires url \<Longrightarrow>
      snd (normalize_url url) \<noteq> [] \<and> list_all is_id_char (snd (normalize_url url)) \<and>
      str_contains (''/folders/'' @ snd (normalize_url url)) url"
    using drive_id_shape [of url] drive_marker_google [of url]
    by (auto simp: normalize_url_branches google_fires_def drive_fires_def)
  show ?thesis using n g d by (simp add: normalize_url_branches)
qed

theorem normalize_url_order_witness:
  "\<not> notion_fires ''docs.google.com/spreadsheets/d/ab_1/edit'' \<and>
   google_fires ''docs.google.com/spreadsheets/d/ab_1/edit'' \<and>
   str_contains ''spreadsheets'' ''docs.google.com/spreadsheets/d/ab_1/edit'' \<and>
   normalize_url ''docs.google.com/spreadsheets/d/ab_1/edit'' = (''gsheet'', ''ab_1'')"
proof -
  have h: "\<not> notion_fires ''docs.google.com/spreadsheets/d/ab_1/edit''"
    "google_fires ''docs.google.com/spreadsheets/d/ab_1/edit''"
    "str_contains ''spreadsheets'' ''docs.google.com/spreadsheets/d/ab_1/edit''"
    "the (re_search match_doc_id ''docs.google.com/spreadsheets/d/ab_1/edit'') = ''ab_1''"
    by code_simp+
  from normalize_url_order [of "''docs.google.com/spreadsheets/d/ab_1/edit''"] h
  have "fst (normalize_url ''docs.google.com/spreadsheets/d/ab_1/edit'') = ''gsheet''"
    and "snd (normalize_url ''docs.google.com/spreadsheets/d/ab_1/edit'') = ''ab_1''"
    by simp_all
  then show ?thesis using h by (simp add: prod_eq_iff)
qed

theorem normalize_url_order_counterexample:
  "get_domain ''https://example.com/d/abc?ref=google.com'' = Inr ''example.com'' \<and>
   \<not> str_contains ''google.com'' ''example.com'' \<and>
   normalize_url ''https://example.com/d/abc?ref=google.com'' = (''gdoc'', ''abc'')"
  by code_simp

section \<open>Properties of the covered and the uncovered set\<close>

lemma uncovered_of_filter:
  "uncovered_of domain db_urls scraped_keys =
     filter (\<lambda>(k, v). k \<notin> dom scraped_keys \<and> wanted domain k \<and> fst k \<noteq> ''gdrive'') db_urls"
proof (cases domain)
  case None
  show ?thesis unfolding uncovered_of_def Let_def None
    by (simp add: wanted_def) (rule filter_cong [OF refl], auto)
next
  case (Some d)
  show ?thesis unfolding uncovered_of_def Let_def Some
    by (cases "d = []"; simp add: wanted_def) (rule filter_cong [OF refl], auto)+
qed

text \<open>
  C2 (as amended). For all inputs the keys of the uncovered set are exactly the keys
  referenced in the corpus that are not in the capture store, without the keys of type
  \<open>gdrive\<close>, and, when \<open>--domain\<close> is given with a non-empty value, restricted to the keys
  of that type. A key of the capture store is never uncovered, whether referenced or not.
\<close>

theorem uncovered_of_keys:
  "fst ` set (uncovered_of domain db_urls scraped_keys) =
     {k \<in> fst ` set db_urls - dom scraped_keys. fst k \<noteq> ''gdrive'' \<and> wanted domain k} \<and>
   dom scraped_keys \<inter> fst ` set (uncovered_of domain db_urls scraped_keys) = {}"
  unfolding uncovered_of_filter by force

theorem uncovered_of_keys_witness:
  "fst ` set (uncovered_of None
      [((''gdoc'', ''x''), sample_info ''u1''), ((''gdrive'', ''y''), sample_info ''u2'')]
      [(''other'', ''w'') \<mapsto> ()]) = {(''gdoc'', ''x'')}"
proof -
  have "{k \<in> fst ` set [((''gdoc'', ''x''), sample_info ''u1''),
                         ((''gdrive'', ''y''), sample_info ''u2'')]
       - dom [(''other'', ''w'') \<mapsto> ()]. fst k \<noteq> ''gdrive'' \<and> wanted None k} = {(''gdoc'', ''x'')}"
    by (auto simp: wanted_def)
  then show ?thesis
    using uncovered_of_keys [of None
      "[((''gdoc'', ''x''), sample_info ''u1''), ((''gdrive'', ''y''), sample_info ''u2'')]"
      "[(''other'', ''w'') \<mapsto> ()]"]
    by (simp only:)
qed

text \<open>
  With \<open>--domain notion\<close> an uncovered document key is left out, so the uncovered set is
  not the plain difference.
\<close>

theorem uncovered_of_counterexample:
  "fst ` set (uncovered_of (Some ''notion'') [((''gdoc'', ''x''), sample_info ''u1'')]
      (Map.empty :: url_key \<rightharpoonup> unit)) \<noteq>
   {k \<in> fst ` set [((''gdoc'', ''x''), sample_info ''u1'')]
          - dom (Map.empty :: url_key \<rightharpoonup> unit). fst k \<noteq> ''gdrive''}"
proof -
  have "uncovered_of (Some ''notion'') [((''gdoc'', ''x''), sample_info ''u1'')]
      (Map.empty :: url_key \<rightharpoonup> unit) = []"
    by (simp add: uncovered_of_def)
  moreover have "(''gdoc'', ''x'') \<in> {k \<in> fst ` set [((''gdoc'', ''x''), sample_info ''u1'')]
          - dom (Map.empty :: url_key \<rightharpoonup> unit). fst k \<noteq> ''gdrive''}"
    by simp
  ultimately show ?thesis by (metis empty_iff image_empty list.set(1))
qed

subsection \<open>Scanning the capture store\<close>

lemma scan_files_step:
  "scan_files ((name, r) # rest) keys =
     scan_files rest
       (if name = ''manifest.json'' then keys
        else case scrape_entry name r of Some (k, v) \<Rightarrow> keys(k \<mapsto> v) | None \<Rightarrow> keys)"
  by (simp split: option.splits)

lemma scan_files_append:
  "scan_files (xs @ ys) keys = scan_files ys (scan_files xs keys)"
proof (induction xs arbitrary: keys)
  case Nil
  show ?case by simp
next
  case (Cons x xs)
  obtain name r where x: "x = (name, r)" by (cases x)
  show ?case unfolding x append_Cons scan_files_step by (rule Cons)
qed

lemma scrape_entry_raises:
  "scrape_entry name Unreadable = None" "scrape_entry name NotJson = None"
  by (simp_all add: scrape_entry_def)

lemma dom_scan_files:
  "dom (scan_files fs keys) =
     dom keys \<union> {k. \<exists>(name, r) \<in> set fs. name \<noteq> ''manifest.json'' \<and>
                       (\<exists>v. scrape_entry name r = Some (k, v))}"
proof (induction fs arbitrary: keys)
  case Nil
  show ?case by simp
next
  case (Cons x fs)
  obtain name r where x: "x = (name, r)" by (cases x)
  let ?new = "\<lambda>fs. {k. \<exists>(name, r) \<in> set fs. name \<noteq> ''manifest.json'' \<and>
                       (\<exists>v. scrape_entry name r = Some (k, v))}"
  let ?keys' = "if name = ''manifest.json'' then keys
        else case scrape_entry name r of Some (k, v) \<Rightarrow> keys(k \<mapsto> v) | None \<Rightarrow> keys"
  have "dom (scan_files (x # fs) keys) = dom ?keys' \<union> ?new fs"
    unfolding x scan_files_step by (rule Cons)
  moreover have "dom ?keys' \<union> ?new fs = dom keys \<union> ?new (x # fs)"
  proof (cases "name = ''manifest.json''")
    case True
    then show ?thesis using x by auto
  next
    case False
    show ?thesis
    proof (cases "scrape_entry name r")
      case None
      then show ?thesis using False x by auto
    next
      case (Some kv)
      obtain k v where kv: "kv = (k, v)" by (cases kv)
      have "?new (x # fs) = insert k (?new fs)" using False Some kv x by auto
      moreover have "dom ?keys' = insert k (dom keys)" using False Some kv by simp
      ultimately show ?thesis by simp
    qed
  qed
  ultimately show ?case by simp
qed

text \<open>
  C10. \<open>get_scraped_keys\<close> is a total function of the directory's content. A file that
  cannot be read or whose content is not JSON is skipped: the result is the one of the
  directory without that file, so the files after it are still scanned. The covered
  keys are exactly the keys of the \<open>.json\<close> files, other than \<open>manifest.json\<close>, for which
  the body of the \<open>try\<close> runs through.
\<close>

theorem get_scraped_keys_skips_bad_file:
  assumes "r = Unreadable \<or> r = NotJson"
  shows "get_scraped_keys (before @ (name, r) # after) = get_scraped_keys (before @ after) \<and>
         dom (get_scraped_keys dir) =
           {k. \<exists>(n, f) \<in> set dir. suffix ''.json'' n \<and> n \<noteq> ''manifest.json'' \<and>
                  (\<exists>v. scrape_entry n f = Some (k, v))}"
proof -
  have "scrape_entry name r = None" using assms scrape_entry_raises by auto
  then have "get_scraped_keys (before @ (name, r) # after) = get_scraped_keys (before @ after)"
    by (cases "suffix ''.json'' name") (simp_all add: get_scraped_keys_def scan_files_append)
  moreover have "dom (get_scraped_keys dir) =
           {k. \<exists>(n, f) \<in> set dir. suffix ''.json'' n \<and> n \<noteq> ''manifest.json'' \<and>
                  (\<exists>v. scrape_entry n f = Some (k, v))}"
    unfolding get_scraped_keys_def dom_scan_files by auto
  ultimately show ?thesis by simp
qed

theorem get_scraped_keys_skips_bad_file_witness:
  "(Unreadable = Unreadable \<or> Unreadable = NotJson) \<and>
   get_scraped_keys
     ([(''a.json'', Parsed (JObj [(''url'', JStr ''notion-0123456789abcdef0123456789abcdef'')]))] @
      (''b.json'', Unreadable) #
      [(''c.json'', Parsed (JObj [(''url'', JStr ''docs.google.com/document/d/x1'')]))]) =
   get_scraped_keys
     ([(''a.json'', Parsed (JObj [(''url'', JStr ''notion-0123456789abcdef0123456789abcdef'')]))] @
      [(''c.json'', Parsed (JObj [(''url'', JStr ''docs.google.com/document/d/x1'')]))])"
proof -
  have h: "Unreadable = Unreadable \<or> Unreadable = NotJson" by simp
  from get_scraped_keys_skips_bad_file [OF h] h show ?thesis by blast
qed

section \<open>Properties of the content normalizer\<close>

subsection \<open>Code blocks\<close>

lemma split_on_nonempty: "split_on d s \<noteq> []"
  by (induction s) (auto split: list.splits)

lemma split_on_first:
  "d \<notin> set first \<Longrightarrow> split_on d (first @ d # rest) = first # split_on d rest"
  by (induction first) auto

lemma split_on_single: "d \<notin> set s \<Longrightarrow> split_on d s = [s]"
  by (induction s) auto

lemma hd_split_on: "hd (split_on d s) = takeWhile (\<lambda>c. c \<noteq> d) s"
  by (induction s) (auto split: list.splits simp: split_on_nonempty)

lemma join_split_on: "join_with d (split_on d s) = s"
proof (induction s)
  case Nil
  show ?case by simp
next
  case (Cons c s)
  show ?case
  proof (cases "c = d")
    case True
    obtain l ls where "split_on d s = l # ls" using split_on_nonempty [of d s] by (cases "split_on d s") auto
    then show ?thesis using True Cons by simp
  next
    case False
    obtain l ls where s: "split_on d s = l # ls" using split_on_nonempty [of d s] by (cases "split_on d s") auto
    then show ?thesis using False Cons by (cases ls) auto
  qed
qed

lemma block_source_ith:
  "block_source cbt i static =
     (case cbt of None \<Rightarrow> static | Some ts \<Rightarrow> if i < length ts then ts ! i else static)"
  by (auto simp: block_source_def split: option.splits)

lemma strip_lang_label_drop:
  assumes "CHR 0x0A \<notin> set first" and "py_lower (py_strip first) \<in> set lang_labels"
  shows "strip_lang_label (first @ CHR 0x0A # rest) = py_strip rest"
  using assms by (simp add: strip_lang_label_def split_on_first join_split_on)

lemma strip_lang_label_only:
  assumes "CHR 0x0A \<notin> set first" and "py_lower (py_strip first) \<in> set lang_labels"
  shows "strip_lang_label first = []"
  using assms by (simp add: strip_lang_label_def split_on_single py_strip_def)

lemma strip_lang_label_keep:
  assumes "py_lower (py_strip (takeWhile (\<lambda>c. c \<noteq> CHR 0x0A) text)) \<notin> set lang_labels"
  shows "strip_lang_label text = py_strip text"
  using assms by (simp add: strip_lang_label_def hd_split_on join_split_on Let_def)

lemma rewrite_code_blocks_nth:
  assumes "i < length code_blocks"
  shows "rewrite_code_blocks cbt code_blocks ! i =
         PreCode (strip_lang_label (block_source cbt i (code_blocks ! i)))"
  using assms by (simp add: rewrite_code_blocks_def nth_enumerate_eq)

text \<open>
  C8. For N code-block elements the loop yields N \<open><pre><code>\<close> tags, and the i-th tag
  holds the i-th out-of-band text, or the element's own text when there is no i-th
  out-of-band text. Of that text the first line is dropped when, stripped and lowercased,
  it is one of the language labels; the text that remains is stripped. A text whose first
  line is not a label is only stripped.
\<close>

theorem rewrite_code_blocks_ith:
  "length (rewrite_code_blocks code_block_texts code_blocks) = length code_blocks \<and>
   (\<forall>i < length code_blocks.
      rewrite_code_blocks code_block_texts code_blocks ! i =
        PreCode (strip_lang_label
          (case code_block_texts of
             None \<Rightarrow> code_blocks ! i
           | Some ts \<Rightarrow> if i < length ts then ts ! i else code_blocks ! i))) \<and>
   (CHR 0x0A \<notin> set first \<and> py_lower (py_strip first) \<in> set lang_labels \<longrightarrow>
      strip_lang_label (first @ CHR 0x0A # rest) = py_strip rest \<and>
      strip_lang_label first = []) \<and>
   (py_lower (py_strip (takeWhile (\<lambda>c. c \<noteq> CHR 0x0A) text)) \<notin> set lang_labels \<longrightarrow>
      strip_lang_label text = py_strip text)"
  using strip_lang_label_drop [of first rest] strip_lang_label_only [of first]
    strip_lang_label_keep [of "text"]
  by (simp add: rewrite_code_blocks_nth block_source_ith) (simp add: rewrite_code_blocks_def)

theorem rewrite_code_blocks_ith_witness:
  "CHR 0x0A \<notin> set ''python'' \<and> py_lower (py_strip ''python'') \<in> set lang_labels \<and>
   strip_lang_label (''python'' @ CHR 0x0A # ''print(1)'') = ''print(1)'' \<and>
   (1::nat) < length [''a'', ''b''] \<and>
   rewrite_code_blocks (Some [''x'', ''y'', ''z'']) [''a'', ''b''] ! 1 = PreCode ''y''"
proof -
  have h1: "CHR 0x0A \<notin> set ''python''" by simp
  have h2: "py_lower (py_strip ''python'') \<in> set lang_labels" by code_simp
  have h3: "py_strip ''print(1)'' = ''print(1)''" by code_simp
  have h4: "(1::nat) < length [''a'', ''b'']" by simp
  have h5: "strip_lang_label ''y'' = ''y''" by code_simp
  from rewrite_code_blocks_ith [of "Some [''x'', ''y'', ''z'']" "[''a'', ''b'']" "''python''" "''print(1)''" "[]"]
  have "strip_lang_label (''python'' @ CHR 0x0A # ''print(1)'') = py_strip ''print(1)''"
    and "rewrite_code_blocks (Some [''x'', ''y'', ''z'']) [''a'', ''b''] ! 1 = PreCode (strip_lang_label ''y'')"
    using h1 h2 h4 by auto
  then show ?thesis using h1 h2 h3 h4 h5 by simp
qed

subsection \<open>Final cleanup\<close>

lemma str_contains_prepend: "str_contains w u \<Longrightarrow> str_contains w (p @ u)"
  by (induction p) auto

lemma collapse_from_run:
  "collapse_from n (replicate k (CHR 0x0A) @ s) = collapse_from (n + k) s"
  by (induction k arbitrary: n) auto

lemma collapse_from_append:
  assumes "a \<noteq> []" and "last a \<noteq> CHR 0x0A"
  shows "collapse_from n (a @ s) = collapse_from n a @ collapse_from 0 s"
  using assms
proof (induction a arbitrary: n)
  case Nil
  then show ?case by simp
next
  case (Cons c a)
  show ?case
  proof (cases "a = []")
    case True
    then show ?thesis using Cons.prems by (simp add: emit_run_def)
  next
    case False
    then have "last a \<noteq> CHR 0x0A" using Cons.prems by simp
    from Cons.IH [OF False this] show ?thesis by simp
  qed
qed

lemma collapse_newlines_run:
  assumes "a = [] \<or> last a \<noteq> CHR 0x0A" and "b = [] \<or> hd b \<noteq> CHR 0x0A"
  shows "collapse_newlines (a @ replicate k (CHR 0x0A) @ b) =
         collapse_newlines a @ (if 3 \<le> k then [CHR 0x0A, CHR 0x0A] else replicate k (CHR 0x0A)) @
         collapse_newlines b"
proof -
  have run: "collapse_from 0 (replicate k (CHR 0x0A) @ b) = emit_run k @ collapse_from 0 b"
  proof (cases b)
    case Nil
    then show ?thesis using collapse_from_run [of 0 k "[]"] by (simp add: emit_run_def)
  next
    case (Cons c cs)
    then have "c \<noteq> CHR 0x0A" using assms(2) by simp
    then show ?thesis using collapse_from_run [of 0 k b] Cons by (simp add: emit_run_def)
  qed
  show ?thesis
  proof (cases "a = []")
    case True
    then show ?thesis using run by (simp add: collapse_newlines_def emit_run_def)
  next
    case False
    then have "last a \<noteq> CHR 0x0A" using assms(1) by simp
    from collapse_from_append [OF False this] run show ?thesis
      by (simp add: collapse_newlines_def emit_run_def)
  qed
qed

lemma emit_run_cases: "emit_run n \<in> {[], [CHR 0x0A], [CHR 0x0A, CHR 0x0A]}"
proof -
  consider "n = 0" | "n = 1" | "n = 2" | "3 \<le> n" by linarith
  then show ?thesis by cases (simp_all add: emit_run_def numeral_2_eq_2)
qed

lemma no_triple_after_run:
  assumes "t = [] \<or> (hd t \<noteq> CHR 0x0A \<and> \<not> str_contains [CHR 0x0A, CHR 0x0A, CHR 0x0A] t)"
  shows "\<not> str_contains [CHR 0x0A, CHR 0x0A, CHR 0x0A] (emit_run n @ t)"
  using assms emit_run_cases [of n] by (cases t) auto

lemma collapse_from_no_triple:
  "\<not> str_contains [CHR 0x0A, CHR 0x0A, CHR 0x0A] (collapse_from n s)"
proof (induction s arbitrary: n)
  case Nil
  show ?case using no_triple_after_run [of "[]" n] by simp
next
  case (Cons c cs)
  show ?case
  proof (cases "c = CHR 0x0A")
    case True
    then show ?thesis using Cons [of "Suc n"] by simp
  next
    case False
    then have "\<not> str_contains [CHR 0x0A, CHR 0x0A, CHR 0x0A] (c # collapse_from 0 cs)"
      using Cons [of 0] by simp
    then show ?thesis using False no_triple_after_run [of "c # collapse_from 0 cs" n] by simp
  qed
qed

lemma rev_dropWhile_rev_prefix: "prefix (rev (dropWhile P (rev t))) t"
proof -
  have "rev t = takeWhile P (rev t) @ dropWhile P (rev t)" by simp
  then have "t = rev (dropWhile P (rev t)) @ rev (takeWhile P (rev t))"
    by (metis rev_append rev_rev_ident)
  then show ?thesis by (metis prefixI)
qed

lemma py_strip_parts:
  "\<exists>l r. s = l @ py_strip s @ r \<and> list_all is_space l \<and> list_all is_space r"
proof -
  let ?t = "dropWhile is_space s"
  have 1: "s = takeWhile is_space s @ ?t" by simp
  have "rev ?t = takeWhile is_space (rev ?t) @ dropWhile is_space (rev ?t)" by simp
  then have 2: "?t = py_strip s @ rev (takeWhile is_space (rev ?t))"
    unfolding py_strip_def by (metis rev_append rev_rev_ident)
  have "s = takeWhile is_space s @ py_strip s @ rev (takeWhile is_space (rev ?t))"
    using 1 2 by metis
  moreover have "list_all is_space (takeWhile is_space s)"
    and "list_all is_space (rev (takeWhile is_space (rev ?t)))"
    by (auto simp: list_all_iff dest: set_takeWhileD)
  ultimately show ?thesis by blast
qed

lemma py_strip_ends:
  assumes "py_strip s \<noteq> []"
  shows "\<not> is_space (hd (py_strip s))" "\<not> is_space (last (py_strip s))"
proof -
  let ?t = "dropWhile is_space s"
  have ne: "dropWhile is_space (rev ?t) \<noteq> []" using assms by (simp add: py_strip_def)
  then have "\<not> is_space (hd (dropWhile is_space (rev ?t)))" by (rule hd_dropWhile)
  then show "\<not> is_space (last (py_strip s))" using ne by (simp add: py_strip_def last_rev)
  have "prefix (py_strip s) ?t" unfolding py_strip_def by (rule rev_dropWhile_rev_prefix)
  then obtain zs where z: "?t = py_strip s @ zs" by (auto simp: prefix_def)
  then have "?t \<noteq> []" using assms by auto
  moreover have "hd (py_strip s) = hd ?t" using z assms by (metis hd_append2)
  ultimately show "\<not> is_space (hd (py_strip s))" using hd_dropWhile [of is_space s] by simp
qed

text \<open>
  What the substitution \<open>\n{3,}\<close> does on every input. It counts newline characters: a run
  of three or more becomes two and a shorter run stays, so the result never holds three
  newline characters in a row, and what \<open>strip()\<close> returns neither begins nor ends with
  whitespace.
\<close>

lemma collapse_counts_newline_characters:
  "\<not> str_contains [CHR 0x0A, CHR 0x0A, CHR 0x0A] (final_cleanup s) \<and>
   (final_cleanup s = [] \<or>
      (\<not> is_space (hd (final_cleanup s)) \<and> \<not> is_space (last (final_cleanup s)))) \<and>
   ((a = [] \<or> last a \<noteq> CHR 0x0A) \<and> (b = [] \<or> hd b \<noteq> CHR 0x0A) \<longrightarrow>
      collapse_newlines (a @ replicate k (CHR 0x0A) @ b) =
      collapse_newlines a @ (if 3 \<le> k then [CHR 0x0A, CHR 0x0A] else replicate k (CHR 0x0A)) @
      collapse_newlines b)"
proof -
  obtain l r where "collapse_newlines s = l @ final_cleanup s @ r"
    using py_strip_parts [of "collapse_newlines s"] unfolding final_cleanup_def by blast
  then have "str_contains [CHR 0x0A, CHR 0x0A, CHR 0x0A] (final_cleanup s) \<Longrightarrow>
             str_contains [CHR 0x0A, CHR 0x0A, CHR 0x0A] (collapse_newlines s)"
    using str_contains_prepend str_contains_mono by metis
  then have 1: "\<not> str_contains [CHR 0x0A, CHR 0x0A, CHR 0x0A] (final_cleanup s)"
    using collapse_from_no_triple [of 0 s] unfolding collapse_newlines_def by blast
  have 2: "final_cleanup s = [] \<or>
      (\<not> is_space (hd (final_cleanup s)) \<and> \<not> is_space (last (final_cleanup s)))"
    using py_strip_ends [of "collapse_newlines s"] unfolding final_cleanup_def by blast
  show ?thesis using 1 2 collapse_newlines_run [of a b k] by blast
qed

text \<open>
  C9. In the final cleanup every run of three or more consecutive blank lines collapses to
  exactly two blank lines, and leading and trailing whitespace is trimmed. The comment
  above the substitution says the same: \<open># Collapse 3+ blank lines to 2\<close>. The trimming
  is done. The collapsing is not what the code does: a pattern over newline characters
  stands where one over blank lines is meant. In \<open>"a\n\n\n\nb"\<close> three blank lines
  separate \<open>a\<close> and \<open>b\<close>; the cleanup returns \<open>"a\n\nb"\<close>, where one blank line separates
  them, not two.
\<close>

theorem final_cleanup_three_blank_lines:
  "split_on (CHR 0x0A) [CHR ''a'', CHR 0x0A, CHR 0x0A, CHR 0x0A, CHR 0x0A, CHR ''b''] =
     [''a'', [], [], [], ''b''] \<and>
   final_cleanup [CHR ''a'', CHR 0x0A, CHR 0x0A, CHR 0x0A, CHR 0x0A, CHR ''b''] =
     [CHR ''a'', CHR 0x0A, CHR 0x0A, CHR ''b''] \<and>
   split_on (CHR 0x0A)
     (final_cleanup [CHR ''a'', CHR 0x0A, CHR 0x0A, CHR 0x0A, CHR 0x0A, CHR ''b'']) =
     [''a'', [], ''b'']"
  by code_simp

section \<open>Properties of the export retrieval\<close>

lemma step1: "b < 0x80 \<Longrightarrow> utf8_step b rest = (b, 1)"
  by (simp add: utf8_step_def)

lemma step2:
  "2 \<le> h \<Longrightarrow> h < 32 \<Longrightarrow> l < 64 \<Longrightarrow>
   utf8_step (0xC0 + h) ((0x80 + l) # rest) = (h * 64 + l, 2)"
  by (simp add: utf8_step_def is_cont_def)

lemma step3:
  "h < 16 \<Longrightarrow> m < 64 \<Longrightarrow> l < 64 \<Longrightarrow> (h = 0 \<longrightarrow> 32 \<le> m) \<Longrightarrow> (h = 13 \<longrightarrow> m < 32) \<Longrightarrow>
   utf8_step (0xE0 + h) ((0x80 + m) # (0x80 + l) # rest) = (h * 4096 + m * 64 + l, 3)"
  by (auto simp add: utf8_step_def is_cont_def second_ok_def)

lemma step4:
  "h \<le> 4 \<Longrightarrow> m < 64 \<Longrightarrow> k < 64 \<Longrightarrow> l < 64 \<Longrightarrow> (h = 0 \<longrightarrow> 16 \<le> m) \<Longrightarrow> (h = 4 \<longrightarrow> m < 16) \<Longrightarrow>
   utf8_step (0xF0 + h) ((0x80 + m) # (0x80 + k) # (0x80 + l) # rest) =
     (h * 262144 + m * 4096 + k * 64 + l, 4)"
  by (auto simp add: utf8_step_def is_cont_def second_ok_def)

lemma enc2:
  assumes "0x80 \<le> cp" "cp < 0x800"
  shows "utf8_step (0xC0 + cp div 64) ((0x80 + cp mod 64) # rest) = (cp, 2)"
proof -
  define x l where "x = cp div 64" and "l = cp mod 64"
  have c: "x * 64 + l = cp" "l < 64" unfolding x_def l_def by simp_all
  have "2 \<le> x" "x < 32" using assms c by linarith+
  from step2 [OF this c(2), of rest]
  have "utf8_step (0xC0 + x) ((0x80 + l) # rest) = (cp, 2)" unfolding c(1) .
  then show ?thesis unfolding x_def l_def .
qed

lemma enc3:
  assumes "0x800 \<le> cp" "cp < 0x10000" "cp < 0xD800 \<or> 0xE000 \<le> cp"
  shows "utf8_step (0xE0 + cp div 4096) ((0x80 + cp div 64 mod 64) # (0x80 + cp mod 64) # rest)
         = (cp, 3)"
proof -
  define x l where "x = cp div 64" and "l = cp mod 64"
  define h m where "h = x div 64" and "m = x mod 64"
  have c: "x * 64 + l = cp" "l < 64" unfolding x_def l_def by simp_all
  have d: "h * 64 + m = x" "m < 64" unfolding h_def m_def by simp_all
  have e: "cp div 4096 = h" unfolding h_def x_def using div_mult2_eq [of cp 64 64] by simp
  have "h < 16" "h = 0 \<longrightarrow> 32 \<le> m" "h = 13 \<longrightarrow> m < 32" using assms c d by linarith+
  from step3 [OF this(1) d(2) c(2) this(2,3), of rest]
  have "utf8_step (0xE0 + h) ((0x80 + m) # (0x80 + l) # rest) = (h * 4096 + m * 64 + l, 3)" .
  moreover have "h * 4096 + m * 64 + l = cp" using c d by linarith
  ultimately have "utf8_step (0xE0 + h) ((0x80 + m) # (0x80 + l) # rest) = (cp, 3)" by simp
  then show ?thesis unfolding e m_def l_def x_def .
qed

lemma enc4:
  assumes "0x10000 \<le> cp" "cp < 0x110000"
  shows "utf8_step (0xF0 + cp div 262144)
          ((0x80 + cp div 4096 mod 64) # (0x80 + cp div 64 mod 64) # (0x80 + cp mod 64) # rest)
         = (cp, 4)"
proof -
  define x l where "x = cp div 64" and "l = cp mod 64"
  define y k where "y = x div 64" and "k = x mod 64"
  define h m where "h = y div 64" and "m = y mod 64"
  have c: "x * 64 + l = cp" "l < 64" unfolding x_def l_def by simp_all
  have d: "y * 64 + k = x" "k < 64" unfolding y_def k_def by simp_all
  have f: "h * 64 + m = y" "m < 64" unfolding h_def m_def by simp_all
  have e: "cp div 4096 = y" unfolding y_def x_def using div_mult2_eq [of cp 64 64] by simp
  have e': "cp div 262144 = h" unfolding h_def e [symmetric] using div_mult2_eq [of cp 4096 64] by simp
  have "h \<le> 4" "h = 0 \<longrightarrow> 16 \<le> m" "h = 4 \<longrightarrow> m < 16" using assms c d f by linarith+
  from step4 [OF this(1) f(2) d(2) c(2) this(2,3), of rest]
  have "utf8_step (0xF0 + h) ((0x80 + m) # (0x80 + k) # (0x80 + l) # rest)
        = (h * 262144 + m * 4096 + k * 64 + l, 4)" .
  moreover have "h * 262144 + m * 4096 + k * 64 + l = cp" using c d f by linarith
  ultimately have "utf8_step (0xF0 + h) ((0x80 + m) # (0x80 + k) # (0x80 + l) # rest) = (cp, 4)"
    by simp
  then show ?thesis unfolding e' e m_def k_def l_def y_def x_def e .
qed

lemma utf8_enc_bytes:
  assumes "is_scalar cp" and "b \<in> set (utf8_enc cp)"
  shows "b < 256"
proof -
  have m: "cp mod 64 < 64" "cp div 64 mod 64 < 64" "cp div 4096 mod 64 < 64" by simp_all
  have "cp < 0x800 \<Longrightarrow> cp div 64 < 32" "cp < 0x10000 \<Longrightarrow> cp div 4096 < 16"
    "cp < 0x110000 \<Longrightarrow> cp div 262144 < 5"
    by (simp_all add: div_less_iff_less_mult)
  moreover have "cp < 0x110000" using assms(1) by (auto simp: is_scalar_def)
  ultimately show ?thesis using assms(2) m
    by (auto simp: utf8_enc_def split: if_splits)
qed

lemma utf8_dec_from_skip:
  "utf8_dec_from (length xs) (xs @ rest) = utf8_dec_from 0 rest"
  by (induction xs) auto

lemma utf8_dec_enc:
  assumes "is_scalar cp"
  shows "utf8_dec_from 0 (utf8_enc cp @ rest) = cp # utf8_dec_from 0 rest"
proof -
  have s: "cp < 0xD800 \<or> 0xE000 \<le> cp" "cp < 0x110000"
    using assms by (auto simp: is_scalar_def)
  consider "cp < 0x80" | "0x80 \<le> cp" "cp < 0x800" | "0x800 \<le> cp" "cp < 0x10000"
    | "0x10000 \<le> cp" "cp < 0x110000"
    using s by linarith
  then show ?thesis
  proof cases
    case 1
    then show ?thesis by (simp add: utf8_enc_def step1)
  next
    case 2
    then show ?thesis using enc2 [OF 2, of rest] by (simp add: utf8_enc_def)
  next
    case 3
    then show ?thesis using enc3 [OF 3 s(1), of rest]
      by (simp add: utf8_enc_def numeral_2_eq_2)
  next
    case 4
    then show ?thesis using enc4 [OF 4, of rest]
      by (simp add: utf8_enc_def numeral_3_eq_3)
  qed
qed

lemma utf8_dec_concat_enc:
  "list_all is_scalar cps \<Longrightarrow> utf8_dec (concat (map utf8_enc cps)) = cps"
  unfolding utf8_dec_def by (induction cps) (simp_all add: utf8_dec_enc)

lemma unat_of_nat_byte: "n < 256 \<Longrightarrow> unat (of_nat n :: 8 word) = n"
  using of_nat_inverse [of n "of_nat n :: 8 word"] by simp

lemma map_unat_of_nat:
  "\<forall>b \<in> set xs. b < 256 \<Longrightarrow> map unat (map of_nat xs :: 8 word list) = xs"
  by (induction xs) (simp_all add: unat_of_nat_byte)

lemma decode_encode:
  assumes "list_all is_scalar cps"
  shows "decode_utf8_replace (encode_utf8 cps) = cps"
proof -
  have "\<forall>b \<in> set (concat (map utf8_enc cps)). b < 256"
    using assms utf8_enc_bytes by (auto simp: list_all_iff)
  then have "map unat (map of_nat (concat (map utf8_enc cps)) :: 8 word list) =
             concat (map utf8_enc cps)"
    by (rule map_unat_of_nat)
  then show ?thesis using assms
    by (simp add: decode_utf8_replace_def encode_utf8_def utf8_dec_concat_enc)
qed

lemma utf8_step_scalar:
  "utf8_step b bs = (cp, k) \<Longrightarrow> is_scalar cp \<and> 1 \<le> k"
  unfolding utf8_step_def is_scalar_def is_cont_def second_ok_def
  by (auto split: if_splits list.splits) arith+

lemma utf8_dec_from_scalar: "list_all is_scalar (utf8_dec_from n bs)"
proof (induction n bs rule: utf8_dec_from.induct)
  case (3 b bs)
  obtain cp k where s: "utf8_step b bs = (cp, k)" by (cases "utf8_step b bs")
  then show ?case using 3 [OF s [symmetric]] utf8_step_scalar [OF s] by simp
qed simp_all

lemma length_utf8_dec_from: "length (utf8_dec_from n bs) \<le> length bs"
proof (induction n bs rule: utf8_dec_from.induct)
  case (3 b bs)
  obtain cp k where s: "utf8_step b bs = (cp, k)" by (cases "utf8_step b bs")
  then show ?case using 3 [OF s [symmetric]] by simp
qed simp_all

lemma decode_scalar: "list_all is_scalar (decode_utf8_replace body)"
  by (simp add: decode_utf8_replace_def utf8_dec_def utf8_dec_from_scalar)

lemma decode_length: "length (decode_utf8_replace body) \<le> length body"
  using length_utf8_dec_from [of 0 "map unat body"]
  by (simp add: decode_utf8_replace_def utf8_dec_def)

text \<open>
  C6. When the URL holds a document id, \<open>fetch_gdoc\<close> answers a final response of status
  403 with \<open>AccessDenied\<close>, any other status outside 200 to 299 with \<open>HttpError\<close> carrying
  that status, a failure below HTTP with \<open>FetchError\<close>, and a status from 200 to 299 with
  the decoded body. Decoding never fails: it yields Unicode scalar values only, U+FFFD
  standing for what is ill-formed, and it gives back every text from its UTF-8 encoding.
\<close>

theorem fetch_gdoc_outcomes:
  assumes "re_search match_doc_id url = Some doc_id"
  shows "(case http_get e (export_url url doc_id) of
            Response status reason body \<Rightarrow>
              fetch_gdoc e url =
                (if 200 \<le> status \<and> status < 300 then Inr (decode_utf8_replace body)
                 else if status = 403 then Inl AccessDenied
                 else Inl (HttpError status reason))
          | NetworkFailure ex \<Rightarrow> fetch_gdoc e url = Inl (FetchError ex)) \<and>
         list_all is_scalar (decode_utf8_replace raw) \<and>
         length (decode_utf8_replace raw) \<le> length raw \<and>
         (list_all is_scalar cps \<longrightarrow> decode_utf8_replace (encode_utf8 cps) = cps)"
proof -
  have "case http_get e (export_url url doc_id) of
            Response status reason body \<Rightarrow>
              fetch_gdoc e url =
                (if 200 \<le> status \<and> status < 300 then Inr (decode_utf8_replace body)
                 else if status = 403 then Inl AccessDenied
                 else Inl (HttpError status reason))
          | NetworkFailure ex \<Rightarrow> fetch_gdoc e url = Inl (FetchError ex)"
    using assms by (cases "http_get e (export_url url doc_id)") (simp_all add: fetch_gdoc_def)
  then show ?thesis using decode_scalar decode_length decode_encode by blast
qed

lemma decode_example: "decode_utf8_replace [0x61, 0xFF, 0xE2, 0x82, 0x62] = [0x61, 0xFFFD, 0xFFFD, 0x62]"
  by (simp add: decode_utf8_replace_def utf8_dec_def utf8_step_def is_cont_def second_ok_def)

lemma sample_doc_id: "re_search match_doc_id ''https://docs.google.com/document/d/bad'' = Some ''bad''"
  by code_simp

theorem fetch_gdoc_outcomes_witness:
  "re_search match_doc_id ''https://docs.google.com/document/d/bad'' = Some ''bad'' \<and>
   fetch_gdoc offline_env ''https://docs.google.com/document/d/bad'' =
     Inl (HttpError 500 ''Internal Server Error'') \<and>
   list_all is_scalar [0x68, 0x20AC] \<and>
   decode_utf8_replace (encode_utf8 [0x68, 0x20AC]) = [0x68, 0x20AC]"
proof -
  have x: "export_url ''https://docs.google.com/document/d/bad'' ''bad'' =
           ''https://docs.google.com/document/d/bad/export?format=txt''"
    by (simp add: export_url_def)
  have s: "list_all is_scalar [0x68, 0x20AC]" by (simp add: is_scalar_def)
  from fetch_gdoc_outcomes [OF sample_doc_id, of offline_env "[]" "[0x68, 0x20AC]"] s
  show ?thesis using sample_doc_id by (simp add: x offline_env_def)
qed

section \<open>Properties of the loops\<close>

text \<open>
  The loops test the error with \<open>if error:\<close>. Every message is a non-empty string, so the
  test holds exactly for \<open>Inl\<close>.
\<close>

lemma error_message_nonempty: "error_message err \<noteq> []"
  by (cases err) simp_all

lemma fetch_notion_state:
  "fetch_notion e url st = (r, st') \<Longrightarrow>
   trace st' = trace st \<and> failed st' = failed st \<and> extracted st' = extracted st \<and>
   skipped_cdp st' = skipped_cdp st"
  by (auto simp: fetch_notion_def get_cdp_client_def split: if_splits prod.splits bool.splits)

lemma fetch_resource_state:
  "fetch_resource e url d st = (r, st') \<Longrightarrow>
   trace st' = trace st \<and> failed st' = failed st \<and> extracted st' = extracted st \<and>
   skipped_cdp st' = skipped_cdp st"
  using fetch_notion_state [of e url st r st']
  by (auto simp: fetch_resource_def split: if_splits)

lemma main_loop_run:
  assumes "\<forall>item \<in> set items. item_ok e item"
  shows "\<exists>st' new. main_loop e dry_run cdp_available items st = Inr st' \<and>
           trace st' = trace st @ new \<and>
           list_all2 (visited_as dry_run cdp_available) items new \<and>
           failed st' = failed st + length (filter is_failure new) \<and>
           extracted st' = extracted st + length (filter is_saved new) \<and>
           skipped_cdp st' = skipped_cdp st + length (filter is_skipped new)"
  using assms
proof (induction items arbitrary: st)
  case Nil
  show ?case by simp
next
  case (Cons item items)
  obtain key v where item: "item = (key, v)" by (cases item)
  let ?url = "info_url v"
  from Cons.prems obtain d where d: "get_domain ?url = Inr d" and w: "write_ok e ?url"
    by (auto simp: item_ok_def item)
  have rest: "\<forall>item \<in> set items. item_ok e item" using Cons.prems by simp
  have step: "\<exists>st1 ev. main_loop e dry_run cdp_available (item # items) st =
                  main_loop e dry_run cdp_available items st1 \<and>
                trace st1 = trace st @ [ev] \<and> visited_as dry_run cdp_available item ev \<and>
                failed st1 = failed st + (if is_failure ev then 1 else 0) \<and>
                extracted st1 = extracted st + (if is_saved ev then 1 else 0) \<and>
                skipped_cdp st1 = skipped_cdp st + (if is_skipped ev then 1 else 0)"
  proof (cases "fst key = ''notion'' \<and> \<not> cdp_available")
    case True
    let ?st1 = "log_event (Skipped ?url) (st\<lparr>skipped_cdp := skipped_cdp st + 1\<rparr>)"
    have "main_loop e dry_run cdp_available (item # items) st =
            main_loop e dry_run cdp_available items ?st1"
      using d True by (auto simp: item)
    moreover have "visited_as dry_run cdp_available item (Skipped ?url)"
      using True by (auto simp: item visited_as_def)
    ultimately show ?thesis
      by (intro exI [of _ ?st1] exI [of _ "Skipped ?url"]) (simp add: log_event_def)
  next
    case nskip: False
    show ?thesis
    proof (cases dry_run)
      case True
      let ?st1 = "log_event (Previewed ?url) st"
      have "main_loop e dry_run cdp_available (item # items) st =
              main_loop e dry_run cdp_available items ?st1"
        using d nskip True by (auto simp: item)
      moreover have "visited_as dry_run cdp_available item (Previewed ?url)"
        using nskip True by (auto simp: item visited_as_def)
      ultimately show ?thesis
        by (intro exI [of _ ?st1] exI [of _ "Previewed ?url"]) (simp add: log_event_def)
    next
      case False
      obtain r st0 where f: "fetch_resource e ?url d st = (r, st0)"
        by (cases "fetch_resource e ?url d st")
      note s = fetch_resource_state [OF f]
      show ?thesis
      proof (cases r)
        case (Inl err)
        let ?st1 = "log_event (Failed ?url err) (st0\<lparr>failed := failed st0 + 1\<rparr>)"
        have "main_loop e dry_run cdp_available (item # items) st =
                main_loop e dry_run cdp_available items ?st1"
          using d nskip False f Inl by (auto simp: item)
        moreover have "trace ?st1 = trace st @ [Failed ?url err]"
          "failed ?st1 = failed st + 1" "extracted ?st1 = extracted st"
          "skipped_cdp ?st1 = skipped_cdp st"
          using s by (simp_all add: log_event_def)
        moreover have "visited_as dry_run cdp_available item (Failed ?url err)"
          using nskip False by (auto simp: item visited_as_def)
        ultimately show ?thesis by (intro exI [of _ ?st1] exI [of _ "Failed ?url err"]) simp
      next
        case (Inr content)
        let ?st1 = "log_event (Saved ?url (length content)) (st0\<lparr>extracted := extracted st0 + 1\<rparr>)"
        have "main_loop e dry_run cdp_available (item # items) st =
                main_loop e dry_run cdp_available items ?st1"
          using d nskip False f Inr w by (auto simp: item)
        moreover have "trace ?st1 = trace st @ [Saved ?url (length content)]"
          "failed ?st1 = failed st" "extracted ?st1 = extracted st + 1"
          "skipped_cdp ?st1 = skipped_cdp st"
          using s by (simp_all add: log_event_def)
        moreover have "visited_as dry_run cdp_available item (Saved ?url (length content))"
          using nskip False by (auto simp: item visited_as_def)
        ultimately show ?thesis
          by (intro exI [of _ ?st1] exI [of _ "Saved ?url (length content)"]) simp
      qed
    qed
  qed
  then obtain st1 ev where 1: "main_loop e dry_run cdp_available (item # items) st =
                  main_loop e dry_run cdp_available items st1"
    and 2: "trace st1 = trace st @ [ev]" "visited_as dry_run cdp_available item ev"
      "failed st1 = failed st + (if is_failure ev then 1 else 0)"
      "extracted st1 = extracted st + (if is_saved ev then 1 else 0)"
      "skipped_cdp st1 = skipped_cdp st + (if is_skipped ev then 1 else 0)"
    by blast
  from Cons.IH [OF rest, of st1] obtain st' new where 3:
    "main_loop e dry_run cdp_available items st1 = Inr st'"
    "trace st' = trace st1 @ new"
    "list_all2 (visited_as dry_run cdp_available) items new"
    "failed st' = failed st1 + length (filter is_failure new)"
    "extracted st' = extracted st1 + length (filter is_saved new)"
    "skipped_cdp st' = skipped_cdp st1 + length (filter is_skipped new)"
    by blast
  show ?case
    by (intro exI [of _ st'] exI [of _ "ev # new"]) (use 1 2 3 in simp)
qed

lemma visited_as_url:
  "list_all2 (visited_as dry_run cdp_available) items new \<Longrightarrow>
   map event_url new = map (\<lambda>(k, v). info_url v) items"
  by (induction rule: list_all2_induct)
     (auto simp: visited_as_def split: if_splits)

lemma visited_as_counts:
  "list_all2 (visited_as False cdp_available) items new \<Longrightarrow>
   length (filter is_failure new) + length (filter is_saved new) + length (filter is_skipped new)
     = length items"
  by (induction rule: list_all2_induct) (auto simp: visited_as_def split: if_splits)

lemma visited_as_no_browser:
  "list_all2 (visited_as False False) items new \<Longrightarrow>
   length (filter is_skipped new) = length (filter (\<lambda>(k, v). fst k = ''notion'') items) \<and>
   length (filter is_failure new) + length (filter is_saved new) =
     length (filter (\<lambda>(k, v). fst k \<noteq> ''notion'') items)"
  by (induction rule: list_all2_induct) (auto simp: visited_as_def split: if_splits)

text \<open>
  The references \<open>get_db_resource_urls\<close> finds start with \<open>http://\<close> or \<open>https://\<close>, one
  of five hosts and a slash. \<open>urlparse\<close> accepts every such URL, so for them \<open>item_ok\<close>
  asks only that the files can be written.
\<close>

lemma netloc_after_scheme:
  "url_netloc (''https://'' @ r) = url_netloc (''http://'' @ r)"
  by (simp add: url_netloc_def strip_scheme_def is_ascii_alpha_def is_scheme_char_def)

lemma get_domain_after_scheme:
  "get_domain (''https://'' @ r) = get_domain (''http://'' @ r)"
  by (simp only: get_domain_def urlparse_hostname_def netloc_after_scheme)

lemma get_domain_reference_http:
  "get_domain (''http://notion.so/'' @ rest) = Inr ''notion.so''"
  "get_domain (''http://www.notion.so/'' @ rest) = Inr ''notion.so''"
  "get_domain (''http://notion.site/'' @ rest) = Inr ''notion.site''"
  "get_domain (''http://www.notion.site/'' @ rest) = Inr ''notion.site''"
  "get_domain (''http://docs.google.com/'' @ rest) = Inr ''docs.google.com''"
  by (simp_all add: get_domain_def urlparse_hostname_def url_netloc_def strip_scheme_def
      is_ascii_alpha_def is_scheme_char_def py_lower_def py_lower_char_def str_replace_def)

lemma get_domain_reference:
  assumes "scheme = ''http'' \<or> scheme = ''https''"
    and "host \<in> set [''notion.so'', ''www.notion.so'', ''notion.site'', ''www.notion.site'',
                      ''docs.google.com'']"
  shows "\<exists>d. get_domain (scheme @ ''://'' @ host @ ''/'' @ rest) = Inr d"
proof -
  have "\<exists>d. get_domain (''http://'' @ host @ ''/'' @ rest) = Inr d"
    using assms(2) get_domain_reference_http [of rest] by auto
  then show ?thesis
    using assms(1) get_domain_after_scheme [of "host @ ''/'' @ rest"] by auto
qed

text \<open>
  C5. Whatever the fetches of the items return or raise, the main loop runs to its end,
  provided that what it does outside the fetch succeeds for every item (\<open>item_ok\<close>). It
  leaves one event per item, in the order of the list; an item whose fetch fails leaves a
  \<open>Failed\<close> event with the typed reason, and \<open>failed\<close> counts these events. Outside a dry run
  every item is counted once, as extracted, failed or skipped.
\<close>

theorem main_loop_continues_after_failure:
  assumes "list_all (item_ok e) items"
  shows "\<exists>st' new. main_loop e dry_run cdp_available items st = Inr st' \<and>
           trace st' = trace st @ new \<and>
           map event_url new = map (\<lambda>(k, v). info_url v) items \<and>
           list_all2 (visited_as dry_run cdp_available) items new \<and>
           failed st' = failed st + length (filter is_failure new) \<and>
           (\<not> dry_run \<longrightarrow>
              extracted st' + failed st' + skipped_cdp st' =
              extracted st + failed st + skipped_cdp st + length items)"
proof -
  have "\<forall>item \<in> set items. item_ok e item" using assms by (simp add: list_all_iff)
  from main_loop_run [OF this, of dry_run cdp_available st] obtain st' new where r:
    "main_loop e dry_run cdp_available items st = Inr st'"
    "trace st' = trace st @ new"
    "list_all2 (visited_as dry_run cdp_available) items new"
    "failed st' = failed st + length (filter is_failure new)"
    "extracted st' = extracted st + length (filter is_saved new)"
    "skipped_cdp st' = skipped_cdp st + length (filter is_skipped new)"
    by blast
  have "\<not> dry_run \<Longrightarrow> extracted st' + failed st' + skipped_cdp st' =
              extracted st + failed st + skipped_cdp st + length items"
    using r(3-6) visited_as_counts [of cdp_available items new] by simp
  then show ?thesis using r visited_as_url [OF r(3)] by blast
qed

lemma sample_domains:
  "get_domain ''https://notion.so/P-0123456789abcdef0123456789abcdef'' = Inr ''notion.so''"
  "get_domain ''https://docs.google.com/document/d/ok'' = Inr ''docs.google.com''"
  "get_domain ''https://docs.google.com/document/d/bad'' = Inr ''docs.google.com''"
  by code_simp+

lemma sample_db_ok: "list_all (item_ok offline_env) sample_db"
  by (simp add: sample_db_def sample_info_def item_ok_def sample_domains offline_env_def)

lemma sample_run:
  "main_loop offline_env False False sample_db initial_state =
     Inr \<lparr>extracted = 1, failed = 1, skipped_cdp = 1, client_created = False,
          trace = [Failed ''https://docs.google.com/document/d/bad''
                     (HttpError 500 ''Internal Server Error''),
                   Saved ''https://docs.google.com/document/d/ok'' 2,
                   Skipped ''https://notion.so/P-0123456789abcdef0123456789abcdef'']\<rparr>"
  by code_simp

text \<open>
  In the sample run the first item fails and the two after it are still visited.
\<close>

theorem main_loop_continues_after_failure_witness:
  "list_all (item_ok offline_env) sample_db \<and>
   main_loop offline_env False False sample_db initial_state =
     Inr \<lparr>extracted = 1, failed = 1, skipped_cdp = 1, client_created = False,
          trace = [Failed ''https://docs.google.com/document/d/bad''
                     (HttpError 500 ''Internal Server Error''),
                   Saved ''https://docs.google.com/document/d/ok'' 2,
                   Skipped ''https://notion.so/P-0123456789abcdef0123456789abcdef'']\<rparr> \<and>
   (\<exists>st' new. main_loop offline_env False False sample_db initial_state = Inr st' \<and>
      trace st' = trace initial_state @ new \<and>
      map event_url new = map (\<lambda>(k, v). info_url v) sample_db \<and>
      list_all2 (visited_as False False) sample_db new \<and>
      failed st' = failed initial_state + length (filter is_failure new) \<and>
      (\<not> False \<longrightarrow>
         extracted st' + failed st' + skipped_cdp st' =
         extracted initial_state + failed initial_state + skipped_cdp initial_state +
         length sample_db))"
proof (intro conjI)
  show "list_all (item_ok offline_env) sample_db" by (rule sample_db_ok)
  then show "\<exists>st' new. main_loop offline_env False False sample_db initial_state = Inr st' \<and>
      trace st' = trace initial_state @ new \<and>
      map event_url new = map (\<lambda>(k, v). info_url v) sample_db \<and>
      list_all2 (visited_as False False) sample_db new \<and>
      failed st' = failed initial_state + length (filter is_failure new) \<and>
      (\<not> False \<longrightarrow>
         extracted st' + failed st' + skipped_cdp st' =
         extracted initial_state + failed initial_state + skipped_cdp initial_state +
         length sample_db)"
    by (rule main_loop_continues_after_failure)
  show "main_loop offline_env False False sample_db initial_state =
     Inr \<lparr>extracted = 1, failed = 1, skipped_cdp = 1, client_created = False,
          trace = [Failed ''https://docs.google.com/document/d/bad''
                     (HttpError 500 ''Internal Server Error''),
                   Saved ''https://docs.google.com/document/d/ok'' 2,
                   Skipped ''https://notion.so/P-0123456789abcdef0123456789abcdef'']\<rparr>"
    by (rule sample_run)
qed

lemma rescrape_fail_fast:
  assumes "\<not> check_cdp_available e"
  shows "snd (rescrape_notion e dry_run assets) = initial_state \<and>
         (assets \<noteq> [] \<longrightarrow> fst (rescrape_notion e dry_run assets) = SysExit 1)"
  using assms by (simp add: rescrape_notion_def)

lemma sync_no_browser:
  assumes nb: "\<not> check_cdp_available e" and mk: "mkdir_ok e"
    and ok: "\<forall>item \<in> set (uncovered_of domain db_urls scraped_keys). item_ok e item"
  shows "\<exists>st'. sync e domain False db_urls scraped_keys = (Normal, st') \<and>
           list_all2 (visited_as False False)
             (sync_items (uncovered_of domain db_urls scraped_keys)) (trace st') \<and>
           skipped_cdp st' =
             length (filter (\<lambda>(k, v). fst k = ''notion'')
               (uncovered_of domain db_urls scraped_keys)) \<and>
           extracted st' + failed st' =
             length (filter (\<lambda>(k, v). fst k \<noteq> ''notion'')
               (uncovered_of domain db_urls scraped_keys))"
proof -
  let ?u = "uncovered_of domain db_urls scraped_keys"
  have cnt: "length (filter P (sync_items ?u)) = length (filter P ?u)" for P
    by (simp add: sync_items_def filter_sort)
  show ?thesis
  proof (cases "?u = []")
    case True
    then show ?thesis by (simp add: sync_def sync_items_def initial_state_def)
  next
    case False
    have "\<forall>item \<in> set (sync_items ?u). item_ok e item" using ok by (simp add: sync_items_def)
    from main_loop_run [OF this, of False False initial_state] obtain st' new where r:
      "main_loop e False False (sync_items ?u) initial_state = Inr st'"
      "trace st' = trace initial_state @ new"
      "list_all2 (visited_as False False) (sync_items ?u) new"
      "failed st' = failed initial_state + length (filter is_failure new)"
      "extracted st' = extracted initial_state + length (filter is_saved new)"
      "skipped_cdp st' = skipped_cdp initial_state + length (filter is_skipped new)"
      by blast
    have "sync e domain False db_urls scraped_keys = (Normal, st')"
      using False nb mk r(1) by (simp add: sync_def Let_def)
    moreover have "trace st' = new" using r(2) by (simp add: initial_state_def)
    moreover have "skipped_cdp st' = length (filter (\<lambda>(k, v). fst k = ''notion'') ?u)"
      and "extracted st' + failed st' = length (filter (\<lambda>(k, v). fst k \<noteq> ''notion'') ?u)"
      using r(4-6) visited_as_no_browser [OF r(3)] cnt by (simp_all add: initial_state_def)
    ultimately show ?thesis using r(3) by simp
  qed
qed

text \<open>
  C7. When the browser is not available, the re-scrape mode aborts the whole run before
  any fetch, and the main sync mode skips each item that needs the browser, counting it
  as skipped and not as failed, and still processes the items that do not need it.

  The re-scrape half holds (\<open>rescrape_fail_fast\<close>). The sync half is what the comment of
  the loop announces (\<open># Skip Notion if no CDP\<close>), and \<open>fetch_resource\<close> says which items
  need the browser: those whose domain is in \<open>CDP_DOMAINS\<close>. The loop tests the type of the
  key instead, and the two tests differ. \<open>https://www.notion.so/product\<close> has the domain
  \<open>notion.so\<close> and, holding no 32-hex id, the key type \<open>other\<close>. With no browser the loop
  does not skip it: it goes to \<open>fetch_notion\<close>, which answers that the browser is not
  available, and it is counted in \<open>failed\<close>, while the Notion item beside it, whose key
  has type \<open>notion\<close>, is skipped.
\<close>

theorem sync_counts_notion_item_failed:
  "\<not> check_cdp_available offline_env \<and>
   normalize_url ''https://www.notion.so/product'' = (''other'', ''https://www.notion.so/product'') \<and>
   get_domain ''https://www.notion.so/product'' = Inr ''notion.so'' \<and>
   ''notion.so'' \<in> set CDP_DOMAINS \<and>
   sync offline_env None False
     [((''other'', ''https://www.notion.so/product''), sample_info ''https://www.notion.so/product'')]
     (Map.empty :: url_key \<rightharpoonup> unit) =
     (Normal, \<lparr>extracted = 0, failed = 1, skipped_cdp = 0, client_created = False,
               trace = [Failed ''https://www.notion.so/product'' CdpUnavailable]\<rparr>) \<and>
   sync offline_env None False
     [((''other'', ''https://www.notion.so/product''), sample_info ''https://www.notion.so/product''),
      ((''notion'', ''0123456789abcdef0123456789abcdef''),
       sample_info ''https://notion.so/P-0123456789abcdef0123456789abcdef'')]
     (Map.empty :: url_key \<rightharpoonup> unit) =
     (Normal, \<lparr>extracted = 0, failed = 1, skipped_cdp = 1, client_created = False,
               trace = [Skipped ''https://notion.so/P-0123456789abcdef0123456789abcdef'',
                        Failed ''https://www.notion.so/product'' CdpUnavailable]\<rparr>)"
  by code_simp

end
